theory Spec2Isabelle
  imports Complex_Main "HOL-Library.Log_Nat"
begin

section \<open>Strings\<close>

text \<open>
  A Python \<open>str\<close> is a sequence of Unicode code points, so a string is a list of
  code points and \<open>length\<close> counts what \<open>len\<close> counts.  \<open>ustr\<close> turns an
  ASCII literal into such a string.
\<close>

type_synonym ustring = "nat list"

definition ustr :: "string \<Rightarrow> ustring" where
  "ustr s = map of_char s"

definition is_ascii :: "nat \<Rightarrow> bool" where
  "is_ascii c = (c < 128)"

definition is_digit :: "nat \<Rightarrow> bool" where
  \<comment> \<open>the character class \<open>[0-9]\<close>\<close>
  "is_digit c = (48 \<le> c \<and> c \<le> 57)"

definition ascii_word :: "nat \<Rightarrow> bool" where
  \<comment> \<open>\<open>[a-zA-Z0-9_]\<close>\<close>
  "ascii_word c = ((97 \<le> c \<and> c \<le> 122) \<or> (65 \<le> c \<and> c \<le> 90) \<or> is_digit c \<or> c = 95)"

text \<open>
  The Unicode character database is not part of the repository: \<open>uw\<close> says which
  code points from 128 on are matched by \<open>\w\<close> (letters, digits and numerics of every
  script), and \<open>ul\<close> is \<open>str.lower\<close> on strings that hold a code point from 128 on.
  On ASCII both are fixed.
\<close>

definition word_char :: "(nat \<Rightarrow> bool) \<Rightarrow> nat \<Rightarrow> bool" where
  "word_char uw c = (if is_ascii c then ascii_word c else uw c)"

definition ascii_lower :: "nat \<Rightarrow> nat" where
  "ascii_lower c = (if 65 \<le> c \<and> c \<le> 90 then c + 32 else c)"

definition lower :: "(ustring \<Rightarrow> ustring) \<Rightarrow> ustring \<Rightarrow> ustring" where
  "lower ul s = (if list_all is_ascii s then map ascii_lower s else ul s)"

definition replace_newline :: "ustring \<Rightarrow> ustring" where
  \<comment> \<open>\<open>captions.replace("\n", " ")\<close>\<close>
  "replace_newline s = map (\<lambda>c. if c = 10 then 32 else c) s"

fun replace_fffd :: "ustring \<Rightarrow> ustring" where
  \<comment> \<open>\<open>cap.replace(pair, " ")\<close> where pair is two U+FFFD code points: left to right, occurrences do not overlap\<close>
  "replace_fffd (a # b # s) =
     (if a = 65533 \<and> b = 65533 then 32 # replace_fffd s else a # replace_fffd (b # s))"
| "replace_fffd s = s"

fun str_split :: "nat \<Rightarrow> ustring \<Rightarrow> ustring list" where
  \<comment> \<open>\<open>s.split(d)\<close> for a one-character separator: empty pieces are kept\<close>
  "str_split d [] = [[]]"
| "str_split d (c # s) =
     (if c = d then [] # str_split d s
      else (case str_split d s of [] \<Rightarrow> [[c]] | p # ps \<Rightarrow> (c # p) # ps))"

definition match_bullet :: "ustring \<Rightarrow> ustring option" where
  \<comment> \<open>a match of \<open>[0-9]+\.\<close> at the start of the string: what follows the match.
      The digits are matched greedily; giving digits back never helps, since the
      character after a shorter run is a digit and not the period.\<close>
  "match_bullet s =
     (case s of [] \<Rightarrow> None
      | c # _ \<Rightarrow>
          if is_digit c
          then (case dropWhile is_digit s of [] \<Rightarrow> None
                | d # rest \<Rightarrow> if d = 46 then Some rest else None)
          else None)"

lemma match_bullet_shorter [termination_simp]:
  "match_bullet (c # s) = Some rest \<Longrightarrow> length rest < Suc (length s)"
proof -
  assume m: "match_bullet (c # s) = Some rest"
  then have "dropWhile is_digit (c # s) = 46 # rest"
    by (auto simp: match_bullet_def split: list.splits if_splits)
  then have "length (46 # rest) \<le> length (c # s)"
    by (metis length_dropWhile_le)
  then show ?thesis by simp
qed

fun splitter_split :: "ustring \<Rightarrow> ustring list" where
  \<comment> \<open>\<open>re.compile("[0-9]+\.").split(captions)\<close>: the leftmost match ends a piece and the
      search goes on behind it\<close>
  "splitter_split [] = [[]]"
| "splitter_split (c # s) =
     (case match_bullet (c # s) of
        Some rest \<Rightarrow> [] # splitter_split rest
      | None \<Rightarrow> (case splitter_split s of [] \<Rightarrow> [[c]] | p # ps \<Rightarrow> (c # p) # ps))"

fun tokenize_from :: "(nat \<Rightarrow> bool) \<Rightarrow> ustring \<Rightarrow> ustring \<Rightarrow> ustring list" where
  \<comment> \<open>\<open>RegexpTokenizer(r"\w+").tokenize\<close>: the maximal runs of word characters;
      the first argument is the run being read\<close>
  "tokenize_from uw cur [] = (if cur = [] then [] else [cur])"
| "tokenize_from uw cur (c # s) =
     (if word_char uw c then tokenize_from uw (cur @ [c]) s
      else (if cur = [] then [] else [cur]) @ tokenize_from uw [] s)"

definition tokenize :: "(nat \<Rightarrow> bool) \<Rightarrow> ustring \<Rightarrow> ustring list" where
  "tokenize uw s = tokenize_from uw [] s"

definition ascii_ignore :: "ustring \<Rightarrow> ustring" where
  \<comment> \<open>\<open>t.encode("ascii", "ignore").decode("ascii")\<close>\<close>
  "ascii_ignore t = filter is_ascii t"

fun join :: "ustring \<Rightarrow> ustring list \<Rightarrow> ustring" where
  \<comment> \<open>\<open>sep.join(xs)\<close>\<close>
  "join sep [] = []"
| "join sep [x] = x"
| "join sep (x # y # ys) = x @ sep @ join sep (y # ys)"


section \<open>Building the caption index\<close>

datatype error =
    ValueError \<comment> \<open>\<open>min\<close> of an empty array\<close>
  | KeyError \<comment> \<open>a path that is no key of the caption mapping\<close>
  | NoSentence \<comment> \<open>\<open>Exception("no sentence for path")\<close>\<close>
  | RuntimeError \<comment> \<open>\<open>torch.stack\<close> of no tensors or of tensors of different shapes\<close>
  | IndexError \<comment> \<open>indexing a tensor that has no axis, or past its end\<close>
  | ZeroDivisionError \<comment> \<open>float division by zero\<close>
  | Cv2Error \<comment> \<open>\<open>cv2.resize\<close> to an empty size\<close>
  | PadError \<comment> \<open>\<open>np.pad\<close> with a negative width\<close>

datatype cell = Str ustring | NotStr
  \<comment> \<open>a cell of the \<open>impression\<close> column: a \<open>str\<close>, or a value of another type\<close>

record study_row =
  img_path :: ustring
  split :: ustring
  impression :: cell

definition report_captions :: "cell \<Rightarrow> ustring" where
  \<comment> \<open>\<open>captions = ""\<close>, then \<open>captions += row["impression"]\<close> for a \<open>str\<close>\<close>
  "report_captions c = (case c of Str s \<Rightarrow> [] @ s | NotStr \<Rightarrow> [])"

definition split_sentences :: "ustring \<Rightarrow> ustring list" where
  \<comment> \<open>newlines to spaces, split at the numbered bullets, split each piece at the
      periods, flatten\<close>
  "split_sentences captions =
     concat (map (str_split 46) (splitter_split (replace_newline captions)))"

definition cap_tokens :: "(nat \<Rightarrow> bool) \<Rightarrow> (ustring \<Rightarrow> ustring) \<Rightarrow> ustring \<Rightarrow> ustring list" where
  \<comment> \<open>\<open>tokens\<close> of one sentence candidate\<close>
  "cap_tokens uw ul cap = tokenize uw (lower ul (replace_fffd cap))"

definition included_tokens :: "ustring list \<Rightarrow> ustring list" where
  \<comment> \<open>the loop over \<open>tokens\<close> that fills \<open>included_tokens\<close>\<close>
  "included_tokens tokens = filter (\<lambda>t. length t > 0) (map ascii_ignore tokens)"

fun caption_loop ::
  "(nat \<Rightarrow> bool) \<Rightarrow> (ustring \<Rightarrow> ustring) \<Rightarrow> int \<Rightarrow> ustring list \<Rightarrow> int \<Rightarrow> ustring list \<Rightarrow> nat list
     \<Rightarrow> ustring list \<times> nat list" where
  \<comment> \<open>\<open>for cap in captions\<close>, on \<open>cnt\<close>, \<open>study_sent\<close> and \<open>sent_lens\<close>; the first
      equation is the end of the loop, \<open>continue\<close> is the recursive call on the same state
      and \<open>break\<close> returns\<close>
  "caption_loop uw ul max_word_num [] cnt study_sent sent_lens = (study_sent, sent_lens)"
| "caption_loop uw ul max_word_num (cap # captions) cnt study_sent sent_lens =
     (if length cap = 0 then caption_loop uw ul max_word_num captions cnt study_sent sent_lens
      else if length (cap_tokens uw ul cap) \<le> 1
      then caption_loop uw ul max_word_num captions cnt study_sent sent_lens
      else if cnt + int (length (included_tokens (cap_tokens uw ul cap))) = max_word_num
      then (study_sent @ [join [32] (included_tokens (cap_tokens uw ul cap))], sent_lens)
      else caption_loop uw ul max_word_num captions
             (cnt + int (length (included_tokens (cap_tokens uw ul cap))))
             (study_sent @ [join [32] (included_tokens (cap_tokens uw ul cap))])
             (sent_lens @ [length (included_tokens (cap_tokens uw ul cap))]))"

record build_state =
  sent_lens :: "nat list"
  num_sents :: "nat list"
  to_remove :: "ustring list"
  path2sent :: "ustring \<rightharpoonup> ustring list"

definition init_state :: build_state where
  "init_state = \<lparr>sent_lens = [], num_sents = [], to_remove = [], path2sent = Map.empty\<rparr>"

definition study_sent_of ::
  "(nat \<Rightarrow> bool) \<Rightarrow> (ustring \<Rightarrow> ustring) \<Rightarrow> int \<Rightarrow> study_row \<Rightarrow> nat list \<Rightarrow> ustring list \<times> nat list" where
  \<comment> \<open>the sentences of one row, and \<open>sent_lens\<close> after the row\<close>
  "study_sent_of uw ul max_word_num row lens =
     caption_loop uw ul max_word_num (split_sentences (report_captions (impression row))) 0 [] lens"

definition process_row ::
  "(nat \<Rightarrow> bool) \<Rightarrow> (ustring \<Rightarrow> ustring) \<Rightarrow> int \<Rightarrow> build_state \<Rightarrow> study_row \<Rightarrow> build_state" where
  \<comment> \<open>the body of \<open>for idx, row in df.iterrows()\<close>\<close>
  "process_row uw ul max_word_num st row =
     (let st1 = (if length (report_captions (impression row)) = 0
                 then st\<lparr>to_remove := to_remove st @ [img_path row]\<rparr> else st);
          r = study_sent_of uw ul max_word_num row (sent_lens st1);
          st2 = st1\<lparr>sent_lens := snd r, num_sents := num_sents st1 @ [length (fst r)]\<rparr>
      in if length (fst r) > 0
         then st2\<lparr>path2sent := (path2sent st2)(img_path row \<mapsto> fst r)\<rparr>
         else st2\<lparr>to_remove := to_remove st2 @ [img_path row]\<rparr>)"

definition build_loop ::
  "(nat \<Rightarrow> bool) \<Rightarrow> (ustring \<Rightarrow> ustring) \<Rightarrow> int \<Rightarrow> build_state \<Rightarrow> study_row list \<Rightarrow> build_state" where
  "build_loop uw ul max_word_num st df = foldl (process_row uw ul max_word_num) st df"

definition create_path_2_sent_mapping ::
  "(nat \<Rightarrow> bool) \<Rightarrow> (ustring \<Rightarrow> ustring) \<Rightarrow> study_row list \<Rightarrow> int
     \<Rightarrow> error + (ustring \<rightharpoonup> ustring list) \<times> ustring list" where
  \<comment> \<open>after the loop the statistics are printed: \<open>sent_lens.min()\<close> raises on an empty
      array (\<open>num_sents\<close> is empty only when \<open>sent_lens\<close> is)\<close>
  "create_path_2_sent_mapping uw ul df max_word_num =
     (let st = build_loop uw ul max_word_num init_state df
      in if sent_lens st = [] then Inl ValueError else Inr (path2sent st, to_remove st))"

section \<open>The cache and the list of a split\<close>

type_synonym captions = "(ustring \<rightharpoonup> ustring list) \<times> ustring list"

text \<open>
  The state of the file system is the content of the captions file, if the file exists;
  \<open>pickle.load\<close> gives back what \<open>pickle.dump\<close> was given.
\<close>

definition load_captions ::
  "(nat \<Rightarrow> bool) \<Rightarrow> (ustring \<Rightarrow> ustring) \<Rightarrow> study_row list \<Rightarrow> int \<Rightarrow> captions option
     \<Rightarrow> error + captions \<times> captions option" where
  \<comment> \<open>the first half of \<open>load_text_data\<close>: \<open>path2sent, to_remove\<close> and the file afterwards\<close>
  "load_captions uw ul df max_word_num file =
     (case file of
        None \<Rightarrow>
          (case create_path_2_sent_mapping uw ul df max_word_num of
             Inl e \<Rightarrow> Inl e
           | Inr c \<Rightarrow> Inr (c, Some c))
      | Some c \<Rightarrow> Inr (c, Some c))"

definition split_filenames :: "study_row list \<Rightarrow> ustring \<Rightarrow> ustring list" where
  \<comment> \<open>\<open>self.df.loc[self.df["split"] == split, "img_path"].tolist()\<close>\<close>
  "split_filenames df sp = map img_path (filter (\<lambda>r. split r = sp) df)"

definition load_text_data ::
  "(nat \<Rightarrow> bool) \<Rightarrow> (ustring \<Rightarrow> ustring) \<Rightarrow> study_row list \<Rightarrow> int \<Rightarrow> ustring \<Rightarrow> captions option
     \<Rightarrow> error + (ustring list \<times> (ustring \<rightharpoonup> ustring list)) \<times> captions option" where
  \<comment> \<open>returns \<open>filenames, path2sent\<close> and the file afterwards\<close>
  "load_text_data uw ul df max_word_num sp file =
     (case load_captions uw ul df max_word_num file of
        Inl e \<Rightarrow> Inl e
      | Inr ((p2s, rm), file') \<Rightarrow>
          Inr ((filter (\<lambda>f. f \<notin> set rm) (split_filenames df sp), p2s), file'))"


definition study_sent :: "(nat \<Rightarrow> bool) \<Rightarrow> (ustring \<Rightarrow> ustring) \<Rightarrow> int \<Rightarrow> study_row \<Rightarrow> ustring list" where
  \<comment> \<open>\<open>study_sent\<close> of a row: it does not depend on the statistics collected so far\<close>
  "study_sent uw ul max_word_num row = fst (study_sent_of uw ul max_word_num row [])"

definition nonempty_values :: "(ustring \<rightharpoonup> ustring list) \<Rightarrow> bool" where
  \<comment> \<open>no key has an empty sentence collection\<close>
  "nonempty_values p2s = (\<forall>q d. p2s q = Some d \<longrightarrow> d \<noteq> [])"





section \<open>Choosing a caption\<close>

datatype tensor = Num int | Ten "tensor list"
  \<comment> \<open>a tensor as nested lists: \<open>Num\<close> has no axis, \<open>Ten\<close> lists the entries along axis 0\<close>

record encoding =
  input_ids :: tensor
  token_type_ids :: tensor
  attention_mask :: tensor

text \<open>
  The pretrained tokenizer is not part of the repository.  \<open>bert sent\<close> stands for the
  three rows of ids it computes for a text, truncated and padded to \<open>word_num\<close>; called
  with \<open>return_tensors="pt"\<close> on one text it returns each row as a tensor of shape
  \<open>[1, word_num]\<close>.
\<close>

definition tokenizer_call :: "(ustring \<Rightarrow> int list \<times> int list \<times> int list) \<Rightarrow> ustring \<Rightarrow> encoding" where
  "tokenizer_call bert sent =
     (case bert sent of (ids, types, att) \<Rightarrow>
        \<lparr>input_ids = Ten [Ten (map Num ids)], token_type_ids = Ten [Ten (map Num types)],
         attention_mask = Ten [Ten (map Num att)]\<rparr>)"

definition x_len :: "(ustring \<Rightarrow> int list \<times> int list \<times> int list) \<Rightarrow> ustring \<Rightarrow> nat" where
  \<comment> \<open>\<open>len([t for t in tokens["input_ids"][0] if t != 0])\<close>\<close>
  "x_len bert sent = length (filter (\<lambda>t. t \<noteq> 0) (fst (bert sent)))"

text \<open>
  \<open>random\<close> is \<open>numpy.random\<close>: \<open>randint(low, high)\<close> draws from the discrete uniform
  distribution on the half-open range from \<open>low\<close> to \<open>high\<close>.  A random value is the list
  of its outcomes, each with its probability.
\<close>

definition randint :: "nat \<Rightarrow> nat \<Rightarrow> (nat \<times> rat) list" where
  "randint low high = map (\<lambda>i. (i, 1 / of_nat (high - low))) [low..<high]"

definition select_sent :: "bool \<Rightarrow> ustring list \<Rightarrow> (ustring \<times> rat) list" where
  \<comment> \<open>the text \<open>sent\<close> of a collection that is not empty; \<open>full_report\<close> says whether
      \<open>cfg.data.text.full_report is True\<close>\<close>
  "select_sent full_report series_sents =
     (if full_report then [(join [32] series_sents, 1)]
      else map (\<lambda>(sent_ix, pr). (series_sents ! sent_ix, pr)) (randint 0 (length series_sents)))"

definition get_caption ::
  "(ustring \<Rightarrow> int list \<times> int list \<times> int list) \<Rightarrow> bool \<Rightarrow> (ustring \<rightharpoonup> ustring list) \<Rightarrow> ustring
     \<Rightarrow> error + ((encoding \<times> nat) \<times> rat) list" where
  \<comment> \<open>\<open>tokens, x_len\<close> for each outcome of the draw\<close>
  "get_caption bert full_report p2s path =
     (case p2s path of
        None \<Rightarrow> Inl KeyError
      | Some series_sents \<Rightarrow>
          if length series_sents = 0 then Inl NoSentence
          else Inr (map (\<lambda>(sent, pr). ((tokenizer_call bert sent, x_len bert sent), pr))
                      (select_sent full_report series_sents)))"

section \<open>Collating a batch\<close>

fun shape :: "tensor \<Rightarrow> nat list" where
  "shape (Num x) = []"
| "shape (Ten ts) = length ts # (case ts of [] \<Rightarrow> [] | t # _ \<Rightarrow> shape t)"

definition stack :: "tensor list \<Rightarrow> error + tensor" where
  \<comment> \<open>\<open>torch.stack\<close>: a new axis 0; the list must not be empty and the shapes must agree\<close>
  "stack ts =
     (case ts of [] \<Rightarrow> Inl RuntimeError
      | t # _ \<Rightarrow> if list_all (\<lambda>u. shape u = shape t) ts then Inr (Ten ts) else Inl RuntimeError)"

fun squeeze :: "tensor \<Rightarrow> tensor" where
  \<comment> \<open>\<open>.squeeze()\<close>: every axis of size 1 is removed\<close>
  "squeeze (Num x) = Num x"
| "squeeze (Ten [t]) = squeeze t"
| "squeeze (Ten ts) = Ten (map squeeze ts)"

definition index_rows :: "tensor \<Rightarrow> nat list \<Rightarrow> error + tensor" where
  \<comment> \<open>\<open>t[indices]\<close> for a tensor of indices: the entries along axis 0 at these indices\<close>
  "index_rows t ix =
     (case t of Num x \<Rightarrow> Inl IndexError
      | Ten ts \<Rightarrow> if list_all (\<lambda>i. i < length ts) ix then Inr (Ten (map (\<lambda>i. ts ! i) ix))
                  else Inl IndexError)"

definition sort_descending :: "nat list \<Rightarrow> nat list \<times> nat list" where
  \<comment> \<open>\<open>torch.sort(torch.tensor(cap_len), 0, True)\<close>: the values in non-increasing order and
      the index each one came from.  \<open>torch.sort\<close> leaves the order of equal values open;
      here they keep their order.\<close>
  "sort_descending xs =
     (let ix = sort_key (\<lambda>i. - int (xs ! i)) [0..<length xs] in (map (\<lambda>i. xs ! i) ix, ix))"

type_synonym sample = "tensor \<times> encoding \<times> nat \<times> ustring"
  \<comment> \<open>\<open>imgs, caps, cap_len, key\<close> as \<open>__getitem__\<close> returns them\<close>

record return_dict =
  ret_caption_ids :: tensor
  ret_token_type_ids :: tensor
  ret_attention_mask :: tensor
  ret_imgs :: tensor
  ret_cap_lens :: "nat list"
  ret_path :: "ustring list"

definition on_ok :: "error + 'a \<Rightarrow> ('a \<Rightarrow> error + 'b) \<Rightarrow> error + 'b" where
  \<comment> \<open>an exception ends the function; otherwise the next statement runs on the value\<close>
  "on_ok r f = (case r of Inl e \<Rightarrow> Inl e | Inr x \<Rightarrow> f x)"

definition multimodal_collate_fn :: "sample list \<Rightarrow> error + return_dict" where
  \<comment> \<open>the fields of \<open>return_dict\<close> are the keys \<open>caption_ids\<close>, \<open>token_type_ids\<close>,
      \<open>attention_mask\<close>, \<open>imgs\<close>, \<open>cap_lens\<close> and \<open>path\<close>\<close>
  "multimodal_collate_fn batch =
     on_ok (stack (map (\<lambda>(img, cap, cap_l, p). img) batch)) (\<lambda>imgs.
     on_ok (stack (map (\<lambda>(img, cap, cap_l, p). input_ids cap) batch)) (\<lambda>ids.
     on_ok (stack (map (\<lambda>(img, cap, cap_l, p). token_type_ids cap) batch)) (\<lambda>tokens.
     on_ok (stack (map (\<lambda>(img, cap, cap_l, p). attention_mask cap) batch)) (\<lambda>attention.
     (let sorted = sort_descending (map (\<lambda>(img, cap, cap_l, p). cap_l) batch);
          sorted_cap_lens = fst sorted; sorted_cap_indices = snd sorted
      in on_ok (index_rows (squeeze ids) sorted_cap_indices) (\<lambda>ids'.
         on_ok (index_rows (squeeze tokens) sorted_cap_indices) (\<lambda>tokens'.
         on_ok (index_rows (squeeze attention) sorted_cap_indices) (\<lambda>attention'.
         on_ok (index_rows imgs sorted_cap_indices) (\<lambda>imgs'.
           Inr \<lparr>ret_caption_ids = ids', ret_token_type_ids = tokens',
                ret_attention_mask = attention', ret_imgs = imgs',
                ret_cap_lens = sorted_cap_lens,
                ret_path = map (\<lambda>(img, cap, cap_l, p). p) batch\<rparr>)))))))))"

section \<open>Resizing an image\<close>

text \<open>
  \<open>scale / float(size[0])\<close> and the product with \<open>float(size[1])\<close> are computed in double
  precision, and \<open>int\<close> cuts the fraction off.  A double that is not negative is a fraction
  here, a numerator and a denominator; \<open>fl\<close> rounds a fraction to the nearest number with
  53 significant bits, to the even one in a tie, which is what the conversion of an
  integer, the division and the multiplication do.  The range of the exponent is left
  out: the numbers of this section are sizes of images, far below \<open>2 ^ 1023\<close>.
\<close>

fun bits :: "nat \<Rightarrow> nat" where
  \<comment> \<open>the number of binary digits of \<open>n\<close>\<close>
  "bits n = (if n = 0 then 0 else Suc (bits (n div 2)))"

declare bits.simps [simp del]

definition ilog2 :: "nat \<Rightarrow> nat \<Rightarrow> int" where
  \<comment> \<open>the exponent of \<open>n / d\<close>: the \<open>t\<close> with \<open>2 ^ t \<le> n / d < 2 ^ (t + 1)\<close>\<close>
  "ilog2 n d =
     (let t = int (bits n) - int (bits d)
      in if (if 0 \<le> t then d * 2 ^ nat t \<le> n else d \<le> n * 2 ^ nat (- t)) then t else t - 1)"

definition rne :: "nat \<Rightarrow> nat \<Rightarrow> nat" where
  \<comment> \<open>\<open>n / d\<close> rounded to the nearest integer, to the even one in a tie\<close>
  "rne n d =
     (let q = n div d; r = n mod d
      in if 2 * r < d then q else if d < 2 * r then q + 1 else if even q then q else q + 1)"

definition fl :: "nat \<times> nat \<Rightarrow> nat \<times> nat" where
  \<comment> \<open>rounding to 53 significant bits: the fraction is scaled so that it lies between
      \<open>2 ^ 52\<close> and \<open>2 ^ 53\<close>, rounded to an integer and scaled back\<close>
  "fl x =
     (case x of (n, d) \<Rightarrow>
        if n = 0 then (0, 1)
        else let k = 52 - ilog2 n d
             in if 0 \<le> k then (rne (n * 2 ^ nat k) d, 2 ^ nat k)
                else (rne n (d * 2 ^ nat (- k)) * 2 ^ nat (- k), 1))"

definition fdiv :: "nat \<times> nat \<Rightarrow> nat \<times> nat \<Rightarrow> nat \<times> nat" where
  \<comment> \<open>\<open>a / b\<close> on doubles\<close>
  "fdiv a b = fl (fst a * snd b, snd a * fst b)"

definition fmul :: "nat \<times> nat \<Rightarrow> nat \<times> nat \<Rightarrow> nat \<times> nat" where
  \<comment> \<open>\<open>a * b\<close> on doubles\<close>
  "fmul a b = fl (fst a * fst b, snd a * snd b)"

definition trunc :: "nat \<times> nat \<Rightarrow> nat" where
  \<comment> \<open>\<open>int(x)\<close> of a double that is not negative\<close>
  "trunc x = fst x div snd x"

definition scaled :: "nat \<Rightarrow> nat \<Rightarrow> nat \<Rightarrow> nat" where
  \<comment> \<open>\<open>int(float(b) * float(scale / float(a)))\<close>: \<open>hsize\<close> with \<open>a = size[0]\<close> and
      \<open>b = size[1]\<close>, \<open>wsize\<close> with \<open>a = size[1]\<close> and \<open>b = size[0]\<close>\<close>
  "scaled scale a b = trunc (fmul (fl (b, 1)) (fdiv (fl (scale, 1)) (fl (a, 1))))"

definition scaled_int :: "int \<Rightarrow> nat \<Rightarrow> nat \<Rightarrow> int" where
  \<comment> \<open>the same for a \<open>scale\<close> of either sign: rounding is symmetric and \<open>int\<close> cuts
      towards zero\<close>
  "scaled_int scale a b =
     (if 0 \<le> scale then int (scaled (nat scale) a b) else - int (scaled (nat (- scale)) a b))"

type_synonym image = "nat list list"
  \<comment> \<open>a two-dimensional array as the list of its rows\<close>

definition height :: "image \<Rightarrow> nat" where
  \<comment> \<open>\<open>img.shape[0]\<close>\<close>
  "height img = length img"

definition width :: "image \<Rightarrow> nat" where
  \<comment> \<open>\<open>img.shape[1]\<close>\<close>
  "width img = (case img of [] \<Rightarrow> 0 | row # _ \<Rightarrow> length row)"

definition np_pad :: "image \<Rightarrow> (int \<times> int) \<times> (int \<times> int) \<Rightarrow> error + image" where
  \<comment> \<open>\<open>np.pad(img, [(top, bottom), (left, right)], "constant", constant_values=0)\<close>: a
      negative width is refused\<close>
  "np_pad img pads =
     (case pads of ((pad_top, pad_bottom), (pad_left, pad_right)) \<Rightarrow>
        if pad_top < 0 \<or> pad_bottom < 0 \<or> pad_left < 0 \<or> pad_right < 0 then Inl PadError
        else Inr (replicate (nat pad_top) (replicate (nat pad_left + width img + nat pad_right) 0)
                  @ map (\<lambda>row. replicate (nat pad_left) 0 @ row @ replicate (nat pad_right) 0) img
                  @ replicate (nat pad_bottom) (replicate (nat pad_left + width img + nat pad_right) 0)))"

definition cv2_resize ::
  "(image \<Rightarrow> nat \<times> nat \<Rightarrow> error + image) \<Rightarrow> image \<Rightarrow> int \<times> int \<Rightarrow> error + image" where
  \<comment> \<open>\<open>cv2.resize(img, dsize, interpolation=cv2.INTER_AREA)\<close> with \<open>dsize = (width, height)\<close>:
      an empty \<open>dsize\<close> is refused (no scale factors are given), otherwise the
      interpolation runs\<close>
  "cv2_resize inter_area img dsize =
     (if fst dsize \<le> 0 \<or> snd dsize \<le> 0 then Inl Cv2Error
      else inter_area img (nat (fst dsize), nat (snd dsize)))"

definition resize_img ::
  "(image \<Rightarrow> nat \<times> nat \<Rightarrow> error + image) \<Rightarrow> image \<Rightarrow> int \<Rightarrow> error + image" where
  \<comment> \<open>\<open>_resize_img\<close>; \<open>desireable_size[::-1]\<close> swaps the pair\<close>
  "resize_img inter_area img scale =
     (let max_dim = max (height img) (width img);
          max_ind = (if height img = max_dim then 0 else 1 :: nat)
      in if max_dim = 0 then Inl ZeroDivisionError
         else
           let desireable_size =
                 (if max_ind = 0 then (scale, scaled_int scale (height img) (width img))
                  else (scaled_int scale (width img) (height img), scale))
           in case cv2_resize inter_area img (snd desireable_size, fst desireable_size) of
                Inl e \<Rightarrow> Inl e
              | Inr resized_img \<Rightarrow>
                  if max_ind = 0
                  then (let pad_size = scale - int (width resized_img)
                        in np_pad resized_img ((0, 0), (pad_size div 2, - ((- pad_size) div 2))))
                  else (let pad_size = scale - int (height resized_img)
                        in np_pad resized_img ((pad_size div 2, - ((- pad_size) div 2)), (0, 0))))"

definition resizes :: "(image \<Rightarrow> nat \<times> nat \<Rightarrow> error + image) \<Rightarrow> bool" where
  \<comment> \<open>what is used of the interpolation: asked for a size that an \<open>int\<close> of the
      library holds, it returns an image of that size\<close>
  "resizes inter_area =
     (\<forall>img w h. 0 < w \<and> w < 2 ^ 31 \<and> 0 < h \<and> h < 2 ^ 31 \<longrightarrow>
        (\<exists>out. inter_area img (w, h) = Inr out \<and> length out = h \<and> list_all (\<lambda>row. length row = w) out))"

definition nearest :: "image \<Rightarrow> nat \<times> nat \<Rightarrow> error + image" where
  \<comment> \<open>an interpolation to run examples with: each pixel is the source pixel at the
      scaled position\<close>
  "nearest img dsize =
     (case dsize of (w, h) \<Rightarrow>
        Inr (map (\<lambda>i. map (\<lambda>j. img ! (i * height img div h) ! (j * width img div w)) [0..<w]) [0..<h]))"


section \<open>Evaluation\<close>

text \<open>
  The facts that compute the model on a concrete report.  In the closed examples the
  two parameters of the Unicode database are \<open>\<lambda>c. False\<close> and \<open>\<lambda>s. s\<close>; an
  example whose text is ASCII does not depend on them.
\<close>

lemmas text_eval =
  ustr_def is_ascii_def is_digit_def ascii_word_def word_char_def ascii_lower_def lower_def
  replace_newline_def match_bullet_def tokenize_def ascii_ignore_def report_captions_def
  split_sentences_def cap_tokens_def included_tokens_def

lemmas fl_eval = scaled_def trunc_def fmul_def fdiv_def fl_def rne_def ilog2_def bits.simps


section \<open>The word cap\<close>

text \<open>
  C2.  The claim: sentence processing of a report stops as soon as the running total of
  included tokens is at least \<open>max_word_num\<close>, also when a sentence makes the total
  jump past the cap.  The loop compares with \<open>==\<close>: with a cap of 3 the report
  \<open>a b. c d. e f.\<close> has the totals 2, 4 and 6, none of them 3, and all three sentences
  are appended, where the claim has the loop stop behind the second.
\<close>

theorem caption_loop_jumps_past_cap:
  "caption_loop (\<lambda>c. False) (\<lambda>s. s) 3 (split_sentences (ustr ''a b. c d. e f.'')) 0 [] []
     = ([ustr ''a b'', ustr ''c d'', ustr ''e f''], [2, 2, 2])"
  by (simp add: text_eval)


section \<open>The order of a batch\<close>

text \<open>
  C1.  The claim: \<open>collate\<close> applies the permutation that sorts the caption lengths in
  non-increasing order to every stacked field and to the list of paths, so that the
  \<open>i\<close>-th path belongs to the \<open>i\<close>-th caption length, image and token rows.  In the
  function the four tensors are indexed by \<open>sorted_cap_indices\<close> and the lengths are the
  sorted ones, but \<open>path\<close> is returned as it was collected.  For three samples with the
  caption lengths 5, 12 and 8 every tensor comes back in the order 1, 2, 0 of the input and
  the paths in the order 0, 1, 2: the first path of the result is the path of the sample
  whose image is last.
\<close>

theorem multimodal_collate_fn_keeps_path_order:
  "multimodal_collate_fn
     [(Ten [Num 0], \<lparr>input_ids = Ten [Ten [Num 10, Num 11]], token_type_ids = Ten [Ten [Num 20, Num 21]],
                     attention_mask = Ten [Ten [Num 30, Num 31]]\<rparr>, 5, ustr ''a''),
      (Ten [Num 1], \<lparr>input_ids = Ten [Ten [Num 12, Num 13]], token_type_ids = Ten [Ten [Num 22, Num 23]],
                     attention_mask = Ten [Ten [Num 32, Num 33]]\<rparr>, 12, ustr ''b''),
      (Ten [Num 2], \<lparr>input_ids = Ten [Ten [Num 14, Num 15]], token_type_ids = Ten [Ten [Num 24, Num 25]],
                     attention_mask = Ten [Ten [Num 34, Num 35]]\<rparr>, 8, ustr ''c'')]
   = Inr \<lparr>ret_caption_ids = Ten [Ten [Num 12, Num 13], Ten [Num 14, Num 15], Ten [Num 10, Num 11]],
          ret_token_type_ids = Ten [Ten [Num 22, Num 23], Ten [Num 24, Num 25], Ten [Num 20, Num 21]],
          ret_attention_mask = Ten [Ten [Num 32, Num 33], Ten [Num 34, Num 35], Ten [Num 30, Num 31]],
          ret_imgs = Ten [Ten [Num 1], Ten [Num 2], Ten [Num 0]],
          ret_cap_lens = [12, 8, 5],
          ret_path = [ustr ''a'', ustr ''b'', ustr ''c'']\<rparr>"
  by (simp add: multimodal_collate_fn_def on_ok_def stack_def index_rows_def sort_descending_def upt_rec)


section \<open>What the build loop does to the mapping and to the exclusion list\<close>

lemma caption_loop_fst:
  "fst (caption_loop uw ul m caps cnt ss sl) = fst (caption_loop uw ul m caps cnt ss sl')"
  by (induction caps arbitrary: cnt ss sl sl') auto

lemma study_sent_of_fst: "fst (study_sent_of uw ul m row lens) = study_sent uw ul m row"
  unfolding study_sent_def study_sent_of_def by (rule caption_loop_fst)

lemma split_sentences_Nil: "split_sentences [] = [[]]"
  by (simp add: split_sentences_def replace_newline_def)

lemma study_sent_of_no_report:
  "report_captions (impression row) = [] \<Longrightarrow> study_sent_of uw ul m row lens = ([], lens)"
  by (simp add: study_sent_of_def split_sentences_Nil)

lemma study_sent_no_report: "report_captions (impression row) = [] \<Longrightarrow> study_sent uw ul m row = []"
  by (simp add: study_sent_def study_sent_of_no_report)

lemma process_row_path2sent:
  "path2sent (process_row uw ul m st row) =
     (if study_sent uw ul m row = [] then path2sent st
      else (path2sent st)(img_path row \<mapsto> study_sent uw ul m row))"
  by (simp add: process_row_def Let_def study_sent_of_fst)

lemma process_row_to_remove:
  "to_remove (process_row uw ul m st row) =
     to_remove st @ (if report_captions (impression row) = [] then [img_path row] else [])
       @ (if study_sent uw ul m row = [] then [img_path row] else [])"
  by (simp add: process_row_def Let_def study_sent_of_fst)

lemma build_loop_Nil: "build_loop uw ul m st [] = st"
  by (simp add: build_loop_def)

lemma build_loop_Cons: "build_loop uw ul m st (row # df) = build_loop uw ul m (process_row uw ul m st row) df"
  by (simp add: build_loop_def)

lemma build_loop_dom:
  "dom (path2sent (build_loop uw ul m st df)) =
     dom (path2sent st) \<union> {img_path r |r. r \<in> set df \<and> study_sent uw ul m r \<noteq> []}"
  by (induction df arbitrary: st) (auto simp: build_loop_Nil build_loop_Cons process_row_path2sent)

lemma build_loop_removed:
  "set (to_remove (build_loop uw ul m st df)) =
     set (to_remove st) \<union> {img_path r |r. r \<in> set df \<and> study_sent uw ul m r = []}"
  by (induction df arbitrary: st)
     (auto simp: build_loop_Nil build_loop_Cons process_row_to_remove study_sent_no_report)

lemma process_row_sentences:
  "nonempty_values (path2sent st) \<Longrightarrow> nonempty_values (path2sent (process_row uw ul m st row))"
  by (auto simp: nonempty_values_def process_row_path2sent)

lemma build_loop_sentences:
  "nonempty_values (path2sent st) \<Longrightarrow> nonempty_values (path2sent (build_loop uw ul m st df))"
proof (induction df arbitrary: st)
  case Nil
  then show ?case by (simp add: build_loop_Nil)
next
  case (Cons row df)
  from Cons.prems have "nonempty_values (path2sent (process_row uw ul m st row))"
    by (rule process_row_sentences)
  then show ?case unfolding build_loop_Cons by (rule Cons.IH)
qed

lemma create_eq:
  "create_path_2_sent_mapping uw ul df m = Inr (p2s, rm) \<Longrightarrow>
     p2s = path2sent (build_loop uw ul m init_state df) \<and> rm = to_remove (build_loop uw ul m init_state df)"
  by (auto simp: create_path_2_sent_mapping_def Let_def split: if_splits)

lemma image_split_union: "{f r |r. r \<in> A \<and> P r} \<union> {f r |r. r \<in> A \<and> \<not> P r} = f ` A"
  by blast

lemma image_split_disjoint:
  "inj_on f A \<Longrightarrow> {f r |r. r \<in> A \<and> P r} \<inter> {f r |r. r \<in> A \<and> \<not> P r} = {}"
  by (auto dest: inj_onD)


lemma in_exactly_one: "A \<inter> B = {} \<Longrightarrow> A \<union> B = C \<Longrightarrow> \<forall>p \<in> C. (p \<in> A) \<noteq> (p \<in> B)"
  by blast

lemmas build_eval =
  create_path_2_sent_mapping_def build_loop_def process_row_def study_sent_of_def init_state_def Let_def


lemma keys_union_removed:
  assumes "create_path_2_sent_mapping uw ul df max_word_num = Inr (p2s, rm)"
  shows "dom p2s \<union> set rm = set (map img_path df)"
proof -
  from create_eq [OF assms]
  have d: "dom p2s = {img_path r |r. r \<in> set df \<and> study_sent uw ul max_word_num r \<noteq> []}"
    and r: "set rm = {img_path r |r. r \<in> set df \<and> \<not> study_sent uw ul max_word_num r \<noteq> []}"
    by (simp_all add: build_loop_dom build_loop_removed init_state_def)
  have "dom p2s \<union> set rm = img_path ` set df"
    unfolding d r by (rule image_split_union)
  then show ?thesis by simp
qed

lemma keys_disjoint_removed:
  assumes "create_path_2_sent_mapping uw ul df max_word_num = Inr (p2s, rm)"
    and "distinct (map img_path df)"
  shows "dom p2s \<inter> set rm = {}"
proof -
  from create_eq [OF assms(1)]
  have d: "dom p2s = {img_path r |r. r \<in> set df \<and> study_sent uw ul max_word_num r \<noteq> []}"
    and r: "set rm = {img_path r |r. r \<in> set df \<and> \<not> study_sent uw ul max_word_num r \<noteq> []}"
    by (simp_all add: build_loop_dom build_loop_removed init_state_def)
  from assms(2) have "inj_on img_path (set df)" by (simp add: distinct_map)
  then show ?thesis unfolding d r by (rule image_split_disjoint)
qed

section \<open>Mapping keys and excluded paths\<close>

text \<open>
  C7: after the build the keys of the mapping and the excluded paths are disjoint, and
  together they are the image paths of the rows, so every image path is in exactly one of
  the two.  The rows come from the constructor, the only caller: it asserts that no
  \<open>dicom_id\<close> is repeated and builds each image path from the \<open>dicom_id\<close> of its row, so
  the image paths of the rows are pairwise distinct.  The build returns exactly when some
  sentence length was recorded: see \<open>create_path_2_sent_mapping_def\<close>.
\<close>

theorem partition_of_paths:
  assumes "create_path_2_sent_mapping uw ul df max_word_num = Inr (p2s, rm)"
    and "distinct (map img_path df)"
  shows "dom p2s \<inter> set rm = {}
    \<and> dom p2s \<union> set rm = set (map img_path df)
    \<and> (\<forall>p \<in> set (map img_path df). (p \<in> dom p2s) \<noteq> (p \<in> set rm))"
proof -
  from keys_disjoint_removed [OF assms] have d: "dom p2s \<inter> set rm = {}" .
  from keys_union_removed [OF assms(1)] have u: "dom p2s \<union> set rm = set (map img_path df)" .
  from d u have "\<forall>p \<in> set (map img_path df). (p \<in> dom p2s) \<noteq> (p \<in> set rm)"
    by (rule in_exactly_one)
  with d u show ?thesis by (intro conjI)
qed

theorem partition_of_paths_witness:
  "create_path_2_sent_mapping (\<lambda>c. False) (\<lambda>s. s)
     [\<lparr>img_path = ustr ''p'', split = ustr ''train'', impression = Str (ustr ''a b. c d.'')\<rparr>,
      \<lparr>img_path = ustr ''q'', split = ustr ''train'', impression = Str []\<rparr>] 5
   = Inr ([ustr ''p'' \<mapsto> [ustr ''a b'', ustr ''c d'']], [ustr ''q'', ustr ''q''])
   \<and> distinct (map img_path
       [\<lparr>img_path = ustr ''p'', split = ustr ''train'', impression = Str (ustr ''a b. c d.'')\<rparr>,
        \<lparr>img_path = ustr ''q'', split = ustr ''train'', impression = Str []\<rparr>])
   \<and> dom [ustr ''p'' \<mapsto> [ustr ''a b'', ustr ''c d'']] \<inter> set [ustr ''q'', ustr ''q''] = {}
   \<and> dom [ustr ''p'' \<mapsto> [ustr ''a b'', ustr ''c d'']] \<union> set [ustr ''q'', ustr ''q'']
       = set (map img_path
       [\<lparr>img_path = ustr ''p'', split = ustr ''train'', impression = Str (ustr ''a b. c d.'')\<rparr>,
        \<lparr>img_path = ustr ''q'', split = ustr ''train'', impression = Str []\<rparr>])"
  (is "?e \<and> ?d \<and> ?i \<and> ?u")
proof -
  have e: ?e by (simp add: build_eval text_eval)
  have d: ?d by (simp add: ustr_def)
  note p = partition_of_paths [OF e d]
  from p have i: ?i by (rule conjunct1)
  from p [THEN conjunct2, THEN conjunct1] have u: ?u .
  from e d i u show ?thesis by (intro conjI)
qed


section \<open>Rows without a report\<close>

lemma no_report: "impression row = Str [] \<or> impression row = NotStr \<Longrightarrow> report_captions (impression row) = []"
  by (auto simp: report_captions_def)

lemma process_row_no_report:
  "report_captions (impression row) = [] \<Longrightarrow>
     to_remove (process_row uw ul m st row) = to_remove st @ [img_path row, img_path row]"
  by (simp add: process_row_to_remove study_sent_no_report)

lemma process_row_count:
  "count_list (to_remove st) p \<le> count_list (to_remove (process_row uw ul m st row)) p"
  by (simp add: process_row_to_remove)

lemma build_loop_count:
  "count_list (to_remove st) p \<le> count_list (to_remove (build_loop uw ul m st df)) p"
proof (induction df arbitrary: st)
  case Nil
  show ?case by (simp add: build_loop_Nil)
next
  case (Cons row df)
  have "count_list (to_remove st) p \<le> count_list (to_remove (process_row uw ul m st row)) p"
    by (rule process_row_count)
  also have "\<dots> \<le> count_list (to_remove (build_loop uw ul m (process_row uw ul m st row) df)) p"
    by (rule Cons.IH)
  finally show ?case by (simp add: build_loop_Cons)
qed

lemma build_loop_twice:
  "row \<in> set df \<Longrightarrow> report_captions (impression row) = [] \<Longrightarrow>
     count_list (to_remove st) (img_path row) + 2
       \<le> count_list (to_remove (build_loop uw ul m st df)) (img_path row)"
proof (induction df arbitrary: st)
  case Nil
  then show ?case by simp
next
  case (Cons r df)
  show ?case
  proof (cases "r = row")
    case True
    have "count_list (to_remove st) (img_path row) + 2
        = count_list (to_remove (process_row uw ul m st row)) (img_path row)"
      by (simp add: process_row_no_report [OF Cons.prems(2)])
    also have "\<dots> \<le> count_list (to_remove (build_loop uw ul m (process_row uw ul m st row) df)) (img_path row)"
      by (rule build_loop_count)
    finally show ?thesis by (simp add: build_loop_Cons True)
  next
    case False
    with Cons.prems have "row \<in> set df" by simp
    then have "count_list (to_remove (process_row uw ul m st r)) (img_path row) + 2
        \<le> count_list (to_remove (build_loop uw ul m (process_row uw ul m st r) df)) (img_path row)"
      using Cons.prems(2) by (rule Cons.IH)
    moreover have "count_list (to_remove st) (img_path row)
        \<le> count_list (to_remove (process_row uw ul m st r)) (img_path row)"
      by (rule process_row_count)
    ultimately show ?thesis by (simp add: build_loop_Cons)
  qed
qed

lemma count_twice_not_distinct: "2 \<le> count_list xs x \<Longrightarrow> \<not> distinct xs"
  by (induction xs) (auto split: if_splits simp: count_list_0_iff)

text \<open>
  C10.  A row whose report is the empty string, or is not a string, has its image path
  appended to the exclusion list twice, once for the empty report and once for the empty
  sentence collection, and the mapping is left as it was.  So in the result of a build
  over such a row the path occurs at least twice: the exclusion structure is a list with
  duplicates, not a set.
\<close>

theorem empty_report_excluded_twice:
  assumes "impression row = Str [] \<or> impression row = NotStr"
  shows "to_remove (process_row uw ul max_word_num st row) = to_remove st @ [img_path row, img_path row]
    \<and> path2sent (process_row uw ul max_word_num st row) = path2sent st
    \<and> (row \<in> set df \<longrightarrow> create_path_2_sent_mapping uw ul df max_word_num = Inr (p2s, rm) \<longrightarrow>
         2 \<le> count_list rm (img_path row) \<and> \<not> distinct rm)"
proof -
  from assms have n: "report_captions (impression row) = []" by (rule no_report)
  have a: "to_remove (process_row uw ul max_word_num st row) = to_remove st @ [img_path row, img_path row]"
    using n by (rule process_row_no_report)
  have b: "path2sent (process_row uw ul max_word_num st row) = path2sent st"
    by (simp add: process_row_path2sent study_sent_no_report [OF n])
  have c: "2 \<le> count_list rm (img_path row) \<and> \<not> distinct rm"
    if "row \<in> set df" and "create_path_2_sent_mapping uw ul df max_word_num = Inr (p2s, rm)"
  proof -
    from create_eq [OF that(2)] have "rm = to_remove (build_loop uw ul max_word_num init_state df)"
      by simp
    with build_loop_twice [OF that(1) n, of init_state uw ul max_word_num]
    have "2 \<le> count_list rm (img_path row)" by simp
    then show ?thesis by (simp add: count_twice_not_distinct)
  qed
  from a b c show ?thesis by blast
qed

theorem empty_report_excluded_twice_witness:
  "(impression \<lparr>img_path = ustr ''q'', split = ustr ''train'', impression = Str []\<rparr> = Str []
     \<or> impression \<lparr>img_path = ustr ''q'', split = ustr ''train'', impression = Str []\<rparr> = NotStr)
   \<and> \<lparr>img_path = ustr ''q'', split = ustr ''train'', impression = Str []\<rparr>
       \<in> set [\<lparr>img_path = ustr ''p'', split = ustr ''train'', impression = Str (ustr ''a b. c d.'')\<rparr>,
              \<lparr>img_path = ustr ''q'', split = ustr ''train'', impression = Str []\<rparr>]
   \<and> create_path_2_sent_mapping (\<lambda>c. False) (\<lambda>s. s)
       [\<lparr>img_path = ustr ''p'', split = ustr ''train'', impression = Str (ustr ''a b. c d.'')\<rparr>,
        \<lparr>img_path = ustr ''q'', split = ustr ''train'', impression = Str []\<rparr>] 5
     = Inr ([ustr ''p'' \<mapsto> [ustr ''a b'', ustr ''c d'']], [ustr ''q'', ustr ''q''])
   \<and> to_remove (process_row (\<lambda>c. False) (\<lambda>s. s) 5 init_state
        \<lparr>img_path = ustr ''q'', split = ustr ''train'', impression = Str []\<rparr>)
      = to_remove init_state @ [ustr ''q'', ustr ''q'']
   \<and> 2 \<le> count_list [ustr ''q'', ustr ''q''] (ustr ''q'')
   \<and> \<not> distinct [ustr ''q'', ustr ''q'']"
  (is "?h \<and> ?m \<and> ?e \<and> ?t \<and> ?c \<and> ?n")
proof -
  have h: ?h by simp
  have m: ?m by simp
  have e: ?e by (simp add: build_eval text_eval)
  note t = empty_report_excluded_twice [OF h, of "(\<lambda>c. False)" "(\<lambda>s. s)" 5 init_state
      "[\<lparr>img_path = ustr ''p'', split = ustr ''train'', impression = Str (ustr ''a b. c d.'')\<rparr>,
        \<lparr>img_path = ustr ''q'', split = ustr ''train'', impression = Str []\<rparr>]"
      "[ustr ''p'' \<mapsto> [ustr ''a b'', ustr ''c d'']]" "[ustr ''q'', ustr ''q'']"]
  from t have t1: ?t by simp
  from t m e have "?c \<and> ?n" by simp
  with h m e t1 show ?thesis by (intro conjI) simp_all
qed


section \<open>The error of caption selection\<close>

lemma create_nonempty_values:
  "create_path_2_sent_mapping uw ul df m = Inr (p2s, rm) \<Longrightarrow> nonempty_values p2s"
proof -
  assume c: "create_path_2_sent_mapping uw ul df m = Inr (p2s, rm)"
  have "nonempty_values (path2sent init_state)"
    by (simp add: nonempty_values_def init_state_def)
  then have "nonempty_values (path2sent (build_loop uw ul m init_state df))"
    by (rule build_loop_sentences)
  with create_eq [OF c] show ?thesis by simp
qed

lemma get_caption_fails:
  "p2s path = Some c \<Longrightarrow> isl (get_caption bert full_report p2s path) = (c = [])"
  by (simp add: get_caption_def)

lemma get_caption_no_sentence:
  "p2s path = Some c \<Longrightarrow> (get_caption bert full_report p2s path = Inl NoSentence) = (c = [])"
  by (simp add: get_caption_def)

text \<open>
  C6.  For a path with a sentence collection, \<open>get_caption\<close> fails if and only if the
  collection is empty, and the failure is then \<open>Exception("no sentence for path")\<close>.  In
  a mapping that \<open>create_path_2_sent_mapping\<close> has built no collection is empty, so for a
  key of a built mapping \<open>get_caption\<close> returns.  (A path that is no key of the mapping
  has no collection: the lookup itself raises \<open>KeyError\<close>.)
\<close>

theorem empty_caption_error:
  "(p2s path = Some c \<longrightarrow>
      (isl (get_caption bert full_report p2s path) = (c = []))
      \<and> ((get_caption bert full_report p2s path = Inl NoSentence) = (c = [])))
   \<and> (create_path_2_sent_mapping uw ul df max_word_num = Inr (built, rm) \<longrightarrow> built path = Some c \<longrightarrow>
        c \<noteq> [] \<and> \<not> isl (get_caption bert full_report built path))"
proof (intro conjI impI)
  assume "p2s path = Some c"
  then show "isl (get_caption bert full_report p2s path) = (c = [])"
    by (rule get_caption_fails)
next
  assume "p2s path = Some c"
  then show "(get_caption bert full_report p2s path = Inl NoSentence) = (c = [])"
    by (rule get_caption_no_sentence)
next
  assume b: "create_path_2_sent_mapping uw ul df max_word_num = Inr (built, rm)"
    and k: "built path = Some c"
  from create_nonempty_values [OF b] k show "c \<noteq> []"
    by (simp add: nonempty_values_def)
  with get_caption_fails [of built path c bert full_report] k
  show "\<not> isl (get_caption bert full_report built path)" by simp
qed

theorem empty_caption_error_witness:
  "[ustr ''q'' \<mapsto> []] (ustr ''q'') = Some ([] :: ustring list)
   \<and> get_caption (\<lambda>s. (map int s, [], [])) False [ustr ''q'' \<mapsto> []] (ustr ''q'') = Inl NoSentence
   \<and> create_path_2_sent_mapping (\<lambda>c. False) (\<lambda>s. s)
       [\<lparr>img_path = ustr ''p'', split = ustr ''train'', impression = Str (ustr ''a b. c d.'')\<rparr>,
        \<lparr>img_path = ustr ''q'', split = ustr ''train'', impression = Str []\<rparr>] 5
     = Inr ([ustr ''p'' \<mapsto> [ustr ''a b'', ustr ''c d'']], [ustr ''q'', ustr ''q''])
   \<and> [ustr ''p'' \<mapsto> [ustr ''a b'', ustr ''c d'']] (ustr ''p'') = Some [ustr ''a b'', ustr ''c d'']
   \<and> \<not> isl (get_caption (\<lambda>s. (map int s, [], [])) False
            [ustr ''p'' \<mapsto> [ustr ''a b'', ustr ''c d'']] (ustr ''p''))"
  (is "?k \<and> ?g \<and> ?e \<and> ?l \<and> ?n")
proof -
  have k: ?k by simp
  have e: ?e by (simp add: build_eval text_eval)
  have l: ?l by simp
  note t1 = empty_caption_error [where p2s = "[ustr ''q'' \<mapsto> []]" and path = "ustr ''q''" and c = "[]"
        and bert = "(\<lambda>s. (map int s, [], []))" and full_report = False, THEN conjunct1, THEN mp, OF k]
  from t1 have g: ?g by (rule conjunct2 [THEN iffD2]) (rule refl)
  note t2 = empty_caption_error [where c = "[ustr ''a b'', ustr ''c d'']"
        and bert = "(\<lambda>s. (map int s, [], []))" and full_report = False
        and built = "[ustr ''p'' \<mapsto> [ustr ''a b'', ustr ''c d'']]"
        and path = "ustr ''p''", THEN conjunct2, THEN mp, OF e, THEN mp, OF l]
  from t2 have n: ?n by (rule conjunct2)
  from k g e l n show ?thesis by (intro conjI)
qed


section \<open>Drawing one sentence\<close>

lemma randint_indices: "map fst (randint low high) = [low..<high]"
  by (simp add: randint_def comp_def)

lemma randint_total: "low < high \<Longrightarrow> sum_list (map snd (randint low high)) = 1"
  by (simp add: randint_def comp_def sum_list_triv)

text \<open>
  C8.  When \<open>full_report\<close> is not set and the collection is not empty, the index is what
  \<open>randint(0, len(series_sents))\<close> draws: every index below the length is an outcome, once,
  the length itself is none, every outcome has the probability one over the length, the
  probabilities add up to one, and the text is the sentence at the index drawn.
\<close>

theorem random_sentence_uniform:
  assumes "series_sents \<noteq> []"
  shows "map fst (randint 0 (length series_sents)) = [0..<length series_sents]
    \<and> (\<forall>d \<in> set (randint 0 (length series_sents)). snd d = 1 / of_nat (length series_sents))
    \<and> sum_list (map snd (randint 0 (length series_sents))) = 1
    \<and> select_sent False series_sents
        = map (\<lambda>sent_ix. (series_sents ! sent_ix, 1 / of_nat (length series_sents)))
            [0..<length series_sents]
    \<and> (p2s path = Some series_sents \<longrightarrow>
        get_caption bert False p2s path
          = Inr (map (\<lambda>sent_ix. ((tokenizer_call bert (series_sents ! sent_ix),
                                  x_len bert (series_sents ! sent_ix)),
                                 1 / of_nat (length series_sents)))
                   [0..<length series_sents]))"
proof -
  from assms have l: "0 < length series_sents" by simp
  have a: "map fst (randint 0 (length series_sents)) = [0..<length series_sents]"
    by (rule randint_indices)
  have b: "\<forall>d \<in> set (randint 0 (length series_sents)). snd d = 1 / of_nat (length series_sents)"
    by (auto simp: randint_def)
  have c: "sum_list (map snd (randint 0 (length series_sents))) = 1"
    using l by (rule randint_total)
  have d: "select_sent False series_sents
        = map (\<lambda>sent_ix. (series_sents ! sent_ix, 1 / of_nat (length series_sents)))
            [0..<length series_sents]"
    by (simp add: select_sent_def randint_def comp_def)
  have e: "get_caption bert False p2s path
          = Inr (map (\<lambda>sent_ix. ((tokenizer_call bert (series_sents ! sent_ix),
                                  x_len bert (series_sents ! sent_ix)),
                                 1 / of_nat (length series_sents)))
                   [0..<length series_sents])"
    if "p2s path = Some series_sents"
    using that assms by (simp add: get_caption_def d comp_def)
  from a b c d e show ?thesis by blast
qed

theorem random_sentence_uniform_witness:
  "[ustr ''a b'', ustr ''c d'', ustr ''e f''] \<noteq> []
   \<and> map fst (randint 0 (length [ustr ''a b'', ustr ''c d'', ustr ''e f''])) = [0, 1, 2]
   \<and> select_sent False [ustr ''a b'', ustr ''c d'', ustr ''e f'']
       = [(ustr ''a b'', 1 / 3), (ustr ''c d'', 1 / 3), (ustr ''e f'', 1 / 3)]"
  (is "?h \<and> ?a \<and> ?d")
proof -
  have h: ?h by simp
  note t = random_sentence_uniform [OF h]
  from t have a: ?a by (simp add: upt_rec)
  from t have d: ?d by (simp add: upt_rec)
  from h a d show ?thesis by (intro conjI)
qed


section \<open>Loading twice\<close>

lemma load_captions_hit: "load_captions uw ul df max_word_num (Some c) = Inr (c, Some c)"
  by (simp add: load_captions_def)

lemma load_captions_file:
  "load_captions uw ul df max_word_num file = Inr (c, file') \<Longrightarrow> file' = Some c"
  by (auto simp: load_captions_def split: option.splits sum.splits)

lemma load_text_data_file:
  "load_text_data uw ul df max_word_num sp file = Inr ((filenames, p2s), file') \<Longrightarrow>
     \<exists>rm. file' = Some (p2s, rm) \<and> load_captions uw ul df max_word_num file = Inr ((p2s, rm), file')
       \<and> filenames = filter (\<lambda>f. f \<notin> set rm) (split_filenames df sp)"
  by (auto simp: load_text_data_def split: sum.splits dest: load_captions_file)

text \<open>
  C9.  When the captions file exists, \<open>load_text_data\<close> returns its content as it is,
  whatever the rows and the word cap are now, and leaves the file as it was.  After any
  call that returns, the file exists and holds what the call returned, so a second call
  (on any rows for the captions, on the same rows for the list of the split) returns the
  same: the index built by the first call and the index reloaded by the second are equal.
\<close>

theorem load_is_idempotent:
  "load_captions uw ul df max_word_num (Some c) = Inr (c, Some c)
   \<and> (load_captions uw ul df max_word_num file = Inr (c, file') \<longrightarrow>
        load_captions uw ul df' max_word_num' file' = Inr (c, file'))
   \<and> (load_text_data uw ul df max_word_num sp file = Inr (r, file') \<longrightarrow>
        load_text_data uw ul df max_word_num sp file' = Inr (r, file'))"
proof (intro conjI impI)
  show "load_captions uw ul df max_word_num (Some c) = Inr (c, Some c)"
    by (rule load_captions_hit)
next
  assume "load_captions uw ul df max_word_num file = Inr (c, file')"
  then have "file' = Some c" by (rule load_captions_file)
  then show "load_captions uw ul df' max_word_num' file' = Inr (c, file')"
    by (simp add: load_captions_hit)
next
  assume a: "load_text_data uw ul df max_word_num sp file = Inr (r, file')"
  obtain filenames p2s where r: "r = (filenames, p2s)" by (cases r)
  from load_text_data_file [OF a [unfolded r]]
  obtain rm where f: "file' = Some (p2s, rm)"
    and n: "filenames = filter (\<lambda>f. f \<notin> set rm) (split_filenames df sp)" by blast
  show "load_text_data uw ul df max_word_num sp file' = Inr (r, file')"
    by (simp add: load_text_data_def load_captions_hit f r n)
qed

theorem load_is_idempotent_witness:
  "load_text_data (\<lambda>c. False) (\<lambda>s. s)
     [\<lparr>img_path = ustr ''p'', split = ustr ''train'', impression = Str (ustr ''a b. c d.'')\<rparr>,
      \<lparr>img_path = ustr ''q'', split = ustr ''train'', impression = Str []\<rparr>] 5 (ustr ''train'') None
   = Inr (([ustr ''p''], [ustr ''p'' \<mapsto> [ustr ''a b'', ustr ''c d'']]),
          Some ([ustr ''p'' \<mapsto> [ustr ''a b'', ustr ''c d'']], [ustr ''q'', ustr ''q'']))
   \<and> load_text_data (\<lambda>c. False) (\<lambda>s. s)
     [\<lparr>img_path = ustr ''p'', split = ustr ''train'', impression = Str (ustr ''a b. c d.'')\<rparr>,
      \<lparr>img_path = ustr ''q'', split = ustr ''train'', impression = Str []\<rparr>] 5 (ustr ''train'')
       (Some ([ustr ''p'' \<mapsto> [ustr ''a b'', ustr ''c d'']], [ustr ''q'', ustr ''q'']))
   = Inr (([ustr ''p''], [ustr ''p'' \<mapsto> [ustr ''a b'', ustr ''c d'']]),
          Some ([ustr ''p'' \<mapsto> [ustr ''a b'', ustr ''c d'']], [ustr ''q'', ustr ''q'']))"
  (is "?a \<and> ?b")
proof -
  have e: "create_path_2_sent_mapping (\<lambda>c. False) (\<lambda>s. s)
     [\<lparr>img_path = ustr ''p'', split = ustr ''train'', impression = Str (ustr ''a b. c d.'')\<rparr>,
      \<lparr>img_path = ustr ''q'', split = ustr ''train'', impression = Str []\<rparr>] 5
     = Inr ([ustr ''p'' \<mapsto> [ustr ''a b'', ustr ''c d'']], [ustr ''q'', ustr ''q''])"
    by (simp add: build_eval text_eval)
  have a: ?a
    by (simp add: load_text_data_def load_captions_def e split_filenames_def) (simp add: ustr_def)
  from load_is_idempotent [THEN conjunct2, THEN conjunct2, THEN mp, OF a]
  have b: ?b .
  from a b show ?thesis by (intro conjI)
qed


section \<open>The image paths of a split\<close>

text \<open>
  C3, as stated: the list of a split holds exactly the paths of the split that are keys of
  the caption mapping, also when a captions file built earlier is loaded.  The list is
  filtered by the exclusion list, not by the mapping.  With a captions file that holds an
  empty mapping and an empty exclusion list, the path of a row of the split is in the list
  and is no key of the mapping.
\<close>

theorem filenames_of_split_counterexample:
  "load_text_data (\<lambda>c. False) (\<lambda>s. s)
     [\<lparr>img_path = ustr ''p'', split = ustr ''train'', impression = Str (ustr ''a b. c d.'')\<rparr>]
     5 (ustr ''train'') (Some (Map.empty, []))
   = Inr (([ustr ''p''], Map.empty), Some (Map.empty, []))
   \<and> ustr ''p'' \<notin> dom (Map.empty :: ustring \<rightharpoonup> ustring list)"
  by (simp add: load_text_data_def load_captions_def split_filenames_def)

text \<open>
  C3, amended.  The list of a split holds, in the order of the rows, exactly the image
  paths of the rows of the split that are not in the exclusion list.  When the captions
  were built by this call and the image paths of the rows are pairwise distinct, these are
  exactly the paths of the split that are keys of the mapping.
\<close>

lemma filter_keys:
  assumes "create_path_2_sent_mapping uw ul df max_word_num = Inr (p2s, rm)"
    and "distinct (map img_path df)"
  shows "filter (\<lambda>f. f \<notin> set rm) (split_filenames df sp)
       = filter (\<lambda>f. f \<in> dom p2s) (split_filenames df sp)"
proof (rule filter_cong [OF refl])
  fix f assume "f \<in> set (split_filenames df sp)"
  then have m: "f \<in> set (map img_path df)" by (auto simp: split_filenames_def)
  from keys_union_removed [OF assms(1)] keys_disjoint_removed [OF assms]
  have "dom p2s \<union> set rm = set (map img_path df)" and "dom p2s \<inter> set rm = {}" by simp_all
  with m show "(f \<notin> set rm) = (f \<in> dom p2s)" by blast
qed

theorem filenames_of_split:
  assumes "load_text_data uw ul df max_word_num sp file = Inr ((filenames, p2s), file')"
  shows "\<exists>rm. file' = Some (p2s, rm)
      \<and> filenames = filter (\<lambda>f. f \<notin> set rm) (map img_path (filter (\<lambda>r. split r = sp) df))
      \<and> (file = None \<longrightarrow> distinct (map img_path df) \<longrightarrow>
           filenames = filter (\<lambda>f. f \<in> dom p2s) (map img_path (filter (\<lambda>r. split r = sp) df)))"
proof -
  from load_text_data_file [OF assms]
  obtain rm where f: "file' = Some (p2s, rm)"
    and l: "load_captions uw ul df max_word_num file = Inr ((p2s, rm), file')"
    and n: "filenames = filter (\<lambda>f. f \<notin> set rm) (split_filenames df sp)" by blast
  have "filenames = filter (\<lambda>f. f \<in> dom p2s) (split_filenames df sp)"
    if "file = None" and d: "distinct (map img_path df)"
  proof -
    from l that(1) have "create_path_2_sent_mapping uw ul df max_word_num = Inr (p2s, rm)"
      by (auto simp: load_captions_def split: sum.splits)
    from filter_keys [OF this d] n show ?thesis by simp
  qed
  with f n show ?thesis by (auto simp: split_filenames_def)
qed

theorem filenames_of_split_witness:
  "load_text_data (\<lambda>c. False) (\<lambda>s. s)
     [\<lparr>img_path = ustr ''p'', split = ustr ''train'', impression = Str (ustr ''a b. c d.'')\<rparr>,
      \<lparr>img_path = ustr ''q'', split = ustr ''train'', impression = Str []\<rparr>] 5 (ustr ''train'') None
   = Inr (([ustr ''p''], [ustr ''p'' \<mapsto> [ustr ''a b'', ustr ''c d'']]),
          Some ([ustr ''p'' \<mapsto> [ustr ''a b'', ustr ''c d'']], [ustr ''q'', ustr ''q'']))
   \<and> distinct (map img_path
     [\<lparr>img_path = ustr ''p'', split = ustr ''train'', impression = Str (ustr ''a b. c d.'')\<rparr>,
      \<lparr>img_path = ustr ''q'', split = ustr ''train'', impression = Str []\<rparr>])
   \<and> [ustr ''p''] = filter (\<lambda>f. f \<in> dom [ustr ''p'' \<mapsto> [ustr ''a b'', ustr ''c d'']])
       (map img_path (filter (\<lambda>r. split r = ustr ''train'')
     [\<lparr>img_path = ustr ''p'', split = ustr ''train'', impression = Str (ustr ''a b. c d.'')\<rparr>,
      \<lparr>img_path = ustr ''q'', split = ustr ''train'', impression = Str []\<rparr>]))"
  (is "?a \<and> ?d \<and> ?b")
proof -
  have e: "create_path_2_sent_mapping (\<lambda>c. False) (\<lambda>s. s)
     [\<lparr>img_path = ustr ''p'', split = ustr ''train'', impression = Str (ustr ''a b. c d.'')\<rparr>,
      \<lparr>img_path = ustr ''q'', split = ustr ''train'', impression = Str []\<rparr>] 5
     = Inr ([ustr ''p'' \<mapsto> [ustr ''a b'', ustr ''c d'']], [ustr ''q'', ustr ''q''])"
    by (simp add: build_eval text_eval)
  have a: ?a
    by (simp add: load_text_data_def load_captions_def e split_filenames_def) (simp add: ustr_def)
  have d: ?d by (simp add: ustr_def)
  from filenames_of_split [OF a] d have b: ?b by blast
  from a d b show ?thesis by (intro conjI)
qed



section \<open>The tokens of a sentence\<close>







section \<open>The size of a resized image\<close>

lemma scaled_2_3_1: "scaled 2 3 1 = 0"
  by (simp add: fl_eval)

text \<open>
  C5, as stated: for every image of at least one row and one column and every target size
  the result is an image of the target size in both directions.  An image of three rows
  and one column with the target size 2 has the factor \<open>2 / 3\<close>; the width
  \<open>int(1.0 * (2 / 3.0))\<close> is 0, \<open>cv2.resize\<close> is asked for the size \<open>(0, 2)\<close> and
  raises.  No image is returned.
\<close>

theorem resize_img_square_counterexample:
  "resize_img nearest [[7], [8], [9]] 2 = Inl Cv2Error"
proof -
  have "scaled 2 (Suc (Suc (Suc 0))) (Suc 0) = 0"
    using scaled_2_3_1 by (simp add: eval_nat_numeral)
  then show ?thesis
    by (simp add: resize_img_def cv2_resize_def Let_def height_def width_def scaled_int_def)
qed


subsection \<open>The error of the rounding\<close>

lemma bits_bounds: "0 < n \<Longrightarrow> 2 ^ bits n \<le> 2 * n \<and> n < 2 ^ bits n"
proof (induction n rule: bits.induct)
  case (1 n)
  show ?case
  proof (cases "n div 2 = 0")
    case True
    with 1 have "n = 1" by (simp add: div_eq_0_iff) 
    then show ?thesis by (simp add: bits.simps)
  next
    case False
    with 1 have ih: "2 ^ bits (n div 2) \<le> 2 * (n div 2)" "n div 2 < 2 ^ bits (n div 2)" by simp_all
    from 1 have b: "bits n = Suc (bits (n div 2))" by (simp add: bits.simps [of n])
    from ih show ?thesis unfolding b by (simp; linarith)
  qed
qed

lemma rne_upper: "0 < d \<Longrightarrow> 2 * d * rne n d \<le> 2 * n + d"
proof -
  assume d: "0 < d"
  have n: "n = d * (n div d) + n mod d" by simp
  then have "2 * n + d = 2 * d * (n div d) + 2 * (n mod d) + d" by (metis distrib_left mult.assoc mult_2)
  moreover have "2 * d * (n div d + 1) = 2 * d * (n div d) + 2 * d" by (simp add: algebra_simps)
  ultimately show ?thesis using d by (auto simp: rne_def Let_def)
qed

lemma rne_one: "rne n 1 = n"
  by (simp add: rne_def)

lemma ilog2_test:
  "0 < n \<Longrightarrow> 0 < d \<Longrightarrow>
    (if 0 \<le> t then d * 2 ^ nat t \<le> n else d \<le> n * 2 ^ nat (- t)) = (real d * 2 powi t \<le> real n)"
proof (cases "0 \<le> t")
  case True
  assume "0 < n" "0 < d"
  have "(d * 2 ^ nat t \<le> n) = (real (d * 2 ^ nat t) \<le> real n)" by (simp only: of_nat_le_iff)
  with True show ?thesis by (simp add: power_int_def)
next
  case False
  assume "0 < n" "0 < d"
  have "(d \<le> n * 2 ^ nat (- t)) = (real d \<le> real (n * 2 ^ nat (- t)))" by (simp only: of_nat_le_iff)
  with False show ?thesis by (simp add: power_int_def field_simps)
qed

lemma ilog2_lower:
  assumes "0 < n" "0 < d"
  shows "real d * 2 powi (ilog2 n d) \<le> real n"
proof -
  define t where "t = int (bits n) - int (bits d)"
  have i: "ilog2 n d = (if real d * 2 powi t \<le> real n then t else t - 1)"
    unfolding ilog2_def Let_def t_def [symmetric] ilog2_test [OF assms] ..
  show ?thesis
  proof (cases "real d * 2 powi t \<le> real n")
    case True
    with i show ?thesis by simp
  next
    case False
    from bits_bounds [OF assms(2)] have "d \<le> 2 ^ bits d" by simp
    then have "real d \<le> real (2 ^ bits d)" by (simp only: of_nat_le_iff)
    then have d: "real d \<le> 2 powi (int (bits d))" by simp
    from bits_bounds [OF assms(1)] have "2 ^ bits n \<le> 2 * n" by simp
    then have "real (2 ^ bits n) \<le> real (2 * n)" by (simp only: of_nat_le_iff)
    then have "2 powi (int (bits n)) \<le> 2 * real n" by simp
    then have n: "2 powi (int (bits n) - 1) \<le> real n" by (simp add: power_int_diff)
    have "real d * 2 powi (t - 1) \<le> 2 powi (int (bits d)) * 2 powi (t - 1)"
      using d by (intro mult_right_mono) simp_all
    also have "\<dots> = 2 powi (int (bits d) + (t - 1))"
      by (subst power_int_add) simp_all
    also have "int (bits d) + (t - 1) = int (bits n) - 1"
      by (simp add: t_def)
    also note n
    finally show ?thesis using i False by simp
  qed
qed

lemma fl_small:
  assumes "0 < n" "0 < d" "real n < real d * 2 ^ 53"
  shows "\<exists>k. fl (n, d) = (rne (n * 2 ^ k) d, 2 ^ k) \<and> real d * 2 ^ 52 \<le> real n * 2 ^ k"
proof -
  define t where "t = ilog2 n d"
  from ilog2_lower [OF assms(1,2)] have l: "real d * 2 powi t \<le> real n" by (simp add: t_def)
  also note assms(3)
  finally have "2 powi t < (2::real) powi 53" using assms(2) by simp
  have t: "t < 53"
  proof (rule ccontr)
    assume "\<not> t < 53"
    then have "53 \<le> t" by simp
    then have "(2::real) powi 53 \<le> 2 powi t" by (intro power_int_increasing) simp_all
    with \<open>2 powi t < (2::real) powi 53\<close> show False by simp
  qed
  define k where "k = nat (52 - t)"
  from t have k: "int k = 52 - t" "0 \<le> 52 - t" by (simp_all add: k_def)
  from assms(1) k have f: "fl (n, d) = (rne (n * 2 ^ k) d, 2 ^ k)"
    by (simp add: fl_def Let_def t_def [symmetric] k_def)
  from k have "t = 52 - int k" by simp
  with l have "real d * 2 powi (52 - int k) \<le> real n" by simp
  then have "real d * (2 ^ 52 / 2 ^ k) \<le> real n" by (simp add: power_int_diff)
  then have "real d * 2 ^ 52 \<le> real n * 2 ^ k" by (simp add: field_simps)
  with f show ?thesis by blast
qed

lemma fl_exact:
  assumes "m < 2 ^ 53"
  shows "\<exists>k. fl (m, 1) = (m * 2 ^ k, 2 ^ k)"
proof (cases "m = 0")
  case True
  then have "fl (m, 1) = (m * 2 ^ 0, 2 ^ 0)" by (simp add: fl_def)
  then show ?thesis by blast
next
  case False
  from assms have "real m < real (2 ^ 53)" by (simp only: of_nat_less_iff)
  then have "real m < real 1 * 2 ^ 53" by simp
  from fl_small [OF _ _ this] False
  obtain k where "fl (m, 1) = (rne (m * 2 ^ k) 1, 2 ^ k)" by auto
  then have "fl (m, 1) = (m * 2 ^ k, 2 ^ k)" by (simp only: rne_one)
  then show ?thesis by blast
qed

lemma fl_rel:
  assumes "0 < n" "0 < d" "real n < real d * 2 ^ 53"
  shows "0 < snd (fl (n, d))"
    and "real (fst (fl (n, d))) / real (snd (fl (n, d))) \<le> real n / real d * (1 + 1 / 2 ^ 53)"
proof -
  from fl_small [OF assms] obtain k where f: "fl (n, d) = (rne (n * 2 ^ k) d, 2 ^ k)"
    and l: "real d * 2 ^ 52 \<le> real n * 2 ^ k" by blast
  from f show "0 < snd (fl (n, d))" by simp
  from rne_upper [OF assms(2), of "n * 2 ^ k"]
  have "real (2 * d * rne (n * 2 ^ k) d) \<le> real (2 * (n * 2 ^ k) + d)" by (simp only: of_nat_le_iff)
  then have "2 * real d * real (rne (n * 2 ^ k) d) \<le> 2 * real n * 2 ^ k + real d" by simp
  then have "real (rne (n * 2 ^ k) d) \<le> real n * 2 ^ k / real d + 1 / 2"
    using assms(2) by (simp add: field_simps)
  then have "real (rne (n * 2 ^ k) d) / 2 ^ k \<le> (real n * 2 ^ k / real d + 1 / 2) / 2 ^ k"
    by (simp add: divide_right_mono)
  also have "\<dots> = real n / real d + 1 / (2 * 2 ^ k)" by (simp add: field_simps)
  also have "1 / (2 * 2 ^ k) \<le> real n / real d * (1 / 2 ^ 53)"
  proof -
    from l assms(2) have "2 ^ 52 \<le> real n / real d * 2 ^ k" by (simp add: field_simps)
    then have "2 ^ 52 / (2 ^ k * 2 ^ 53) \<le> real n / real d * 2 ^ k / (2 ^ k * 2 ^ 53)"
      by (intro divide_right_mono) simp_all
    then show ?thesis by simp
  qed
  finally have "real (rne (n * 2 ^ k) d) / 2 ^ k \<le> real n / real d + real n / real d * (1 / 2 ^ 53)"
    by simp
  then show "real (fst (fl (n, d))) / real (snd (fl (n, d))) \<le> real n / real d * (1 + 1 / 2 ^ 53)"
    unfolding f by (simp add: algebra_simps)
qed

lemma fl_zero: "fl (0, d) = (0, 1)"
  by (simp add: fl_def)

lemma trunc_less:
  assumes "0 < snd p" "real (fst p) / real (snd p) < real s + 1"
  shows "trunc p \<le> s"
proof -
  have "real (fst p div snd p) \<le> real (fst p) / real (snd p)" by (rule of_nat_div_le_of_nat)
  with assms(2) have "real (fst p div snd p) < real (s + 1)" by simp
  then have "fst p div snd p < s + 1" by (simp only: of_nat_less_iff)
  then show ?thesis by (simp add: trunc_def)
qed

lemma scaled_le:
  assumes a: "0 < a" "b \<le> a" "a < 2 ^ 53" and s: "scale < 2 ^ 31"
  shows "scaled scale a b \<le> scale"
proof -
  from fl_exact [of scale] s obtain k1 where k1: "fl (scale, 1) = (scale * 2 ^ k1, 2 ^ k1)" by auto
  from fl_exact [OF a(3)] obtain k2 where k2: "fl (a, 1) = (a * 2 ^ k2, 2 ^ k2)" by auto
  from a have "b < 2 ^ 53" by simp
  from fl_exact [OF this] obtain k3 where k3: "fl (b, 1) = (b * 2 ^ k3, 2 ^ k3)" by auto
  define n1 where "n1 = scale * 2 ^ k1 * 2 ^ k2"
  define d1 where "d1 = 2 ^ k1 * (a * 2 ^ k2)"
  define q where "q = fl (n1, d1)"
  define n2 where "n2 = b * 2 ^ k3 * fst q"
  define d2 where "d2 = 2 ^ k3 * snd q"
  define p where "p = fl (n2, d2)"
  have e: "scaled scale a b = trunc p"
    by (simp only: scaled_def fmul_def fdiv_def k1 k2 k3 fst_conv snd_conv p_def n2_def d2_def q_def
        n1_def d1_def)
  define u :: real where "u = 1 / 2 ^ 53"
  from s have "real scale < real (2 ^ 31)" by (simp only: of_nat_less_iff)
  then have sr: "real scale < 2 ^ 31" by simp
  show ?thesis
  proof (cases "n2 = 0")
    case True
    then have "p = (0, 1)" by (simp add: p_def fl_zero)
    then show ?thesis by (simp add: e trunc_def)
  next
    case False
    then have b: "0 < b" and fq: "0 < fst q" by (simp_all add: n2_def)
    have n1: "0 < n1"
    proof (rule ccontr)
      assume "\<not> 0 < n1"
      then have "q = (0, 1)" by (simp add: q_def fl_zero)
      with fq show False by simp
    qed
    then have s0: "0 < scale" by (simp add: n1_def)
    from a have d1: "0 < d1" by (simp add: d1_def)
    have r1: "real n1 / real d1 = real scale / real a"
      by (simp add: n1_def d1_def)
    from a(1) have "1 \<le> real a" by simp
    then have "real scale / real a \<le> real scale" using divide_left_mono [of 1 "real a" "real scale"] by simp
    with sr have "real n1 / real d1 < 2 ^ 53" unfolding r1 by simp
    with d1 have "real n1 < real d1 * 2 ^ 53" by (simp add: field_simps)
    from fl_rel [OF n1 d1 this]
    have q: "0 < snd q" "real (fst q) / real (snd q) \<le> real scale / real a * (1 + u)"
      by (simp_all add: q_def r1 u_def)
    from q(1) have d2: "0 < d2" by (simp add: d2_def)
    from False have n2: "0 < n2" by simp
    have r2: "real n2 / real d2 = real b * (real (fst q) / real (snd q))"
      by (simp add: n2_def d2_def)
    from a have "real b \<le> real a" by simp
    have "real n2 / real d2 \<le> real b * (real scale / real a * (1 + u))"
      unfolding r2 using q(2) by (intro mult_left_mono) simp_all
    also have "\<dots> = real b / real a * (real scale * (1 + u))" by simp
    also have "\<dots> \<le> 1 * (real scale * (1 + u))"
      using a \<open>real b \<le> real a\<close> by (intro mult_right_mono) (simp_all add: u_def)
    finally have x: "real n2 / real d2 \<le> real scale * (1 + u)" by simp
    also have "\<dots> < 2 ^ 53" using sr by (simp add: u_def)
    finally have "real n2 < real d2 * 2 ^ 53" using d2 by (simp add: field_simps)
    from fl_rel [OF n2 d2 this]
    have p: "0 < snd p" "real (fst p) / real (snd p) \<le> real n2 / real d2 * (1 + u)"
      by (simp_all add: p_def u_def)
    from x have "real n2 / real d2 * (1 + u) \<le> real scale * (1 + u) * (1 + u)"
      by (intro mult_right_mono) (simp_all add: u_def)
    also have "\<dots> = real scale + real scale * (2 * u + u * u)" by (simp add: algebra_simps)
    also have "real scale * (2 * u + u * u) < 1"
    proof -
      have "real scale * (2 * u + u * u) \<le> 2 ^ 31 * (2 * u + u * u)"
        using sr by (intro mult_right_mono) (simp_all add: u_def)
      also have "\<dots> < 1" by (simp add: u_def)
      finally show ?thesis .
    qed
    finally have "real n2 / real d2 * (1 + u) < real scale + 1" by simp
    with p(2) have "real (fst p) / real (snd p) < real scale + 1" by simp
    from trunc_less [OF p(1) this] show ?thesis by (simp add: e)
  qed
qed

lemma scaled_int_le:
  assumes "0 < a" "b \<le> a" "a < 2 ^ 53" "scale < 2 ^ 31" "0 < scaled_int scale a b"
  shows "scaled_int scale a b \<le> scale"
proof (cases "0 \<le> scale")
  case True
  with assms(4) have "nat scale < 2 ^ 31" by simp
  from scaled_le [OF assms(1-3) this] have "int (scaled (nat scale) a b) \<le> int (nat scale)"
    by (simp only: of_nat_le_iff)
  with True show ?thesis by (simp add: scaled_int_def)
next
  case False
  with assms(5) show ?thesis by (simp add: scaled_int_def)
qed

lemma scaled_224_200_100: "scaled_int 224 200 100 = 112"
  by (simp add: scaled_int_def fl_eval)

lemma scaled_below_floor: "scaled_int 224 55 55 = 223"
  by (simp add: scaled_int_def fl_eval)


subsection \<open>The two branches\<close>

lemma nearest_resizes: "resizes nearest"
  by (simp add: resizes_def nearest_def list_all_iff)

lemma width_rows: "img \<noteq> [] \<Longrightarrow> \<forall>row \<in> set img. length row = w \<Longrightarrow> width img = w"
  by (cases img) (simp_all add: width_def)

lemma resized_shape:
  assumes "resizes inter_area" "0 < w" "w < 2 ^ 31" "0 < h" "h < 2 ^ 31"
  obtains res where "inter_area img (w, h) = Inr res" and "height res = h" and "width res = w"
    and "length res = h" and "\<forall>row \<in> set res. length row = w"
proof -
  from assms obtain res where e: "inter_area img (w, h) = Inr res" and l: "length res = h"
    and r: "\<forall>row \<in> set res. length row = w"
    unfolding resizes_def list_all_iff by blast
  from l assms(4) have "res \<noteq> []" by auto
  then have "width res = w" using r by (rule width_rows)
  with e l r that show ?thesis by (simp add: height_def)
qed

lemma pad_split:
  fixes p :: int
  assumes "0 \<le> p"
  shows "0 \<le> p div 2" and "0 \<le> - ((- p) div 2)" and "p div 2 + - ((- p) div 2) = p"
    and "p div 2 \<le> - ((- p) div 2)" and "- ((- p) div 2) \<le> p div 2 + 1"
  using assms by linarith+

lemma resize_img_tall:
  assumes img: "img \<noteq> []" "\<forall>row \<in> set img. length row = w" "0 < w" "w \<le> length img"
    and r: "scaled_int scale (length img) w = r" "0 < r" "r \<le> scale"
    and res: "inter_area img (nat r, nat scale) = Inr res" "width res = nat r"
  shows "resize_img inter_area img scale
      = Inr (map (\<lambda>row. replicate (nat ((scale - r) div 2)) 0 @ row
                          @ replicate (nat (- ((- (scale - r)) div 2))) 0) res)"
proof -
  from img have hw: "height img = length img" "width img = w"
    by (simp_all add: height_def width_rows)
  from img have mx: "max (length img) w = length img" "length img \<noteq> 0" by simp_all
  from r have s: "\<not> scale \<le> 0" "\<not> r \<le> 0" by simp_all
  from r have ir: "int (nat r) = r" by simp
  from r have "0 \<le> scale - r" by simp
  from pad_split(1,2) [OF this]
  have nn: "\<not> (scale - r) div 2 < 0" "\<not> - ((- (scale - r)) div 2) < 0" by simp_all
  show ?thesis
    unfolding resize_img_def Let_def hw mx(1) r(1) np_pad_def cv2_resize_def
    using s nn mx(2) by (simp add: res ir)
qed

lemma resize_img_wide:
  assumes img: "img \<noteq> []" "\<forall>row \<in> set img. length row = w" "0 < w" "\<not> w \<le> length img"
    and r: "scaled_int scale w (length img) = r" "0 < r" "r \<le> scale"
    and res: "inter_area img (nat scale, nat r) = Inr res" "height res = nat r" "width res = nat scale"
  shows "resize_img inter_area img scale
      = Inr (replicate (nat ((scale - r) div 2)) (replicate (nat scale) 0)
             @ res
             @ replicate (nat (- ((- (scale - r)) div 2))) (replicate (nat scale) 0))"
proof -
  from img have hw: "height img = length img" "width img = w"
    by (simp_all add: height_def width_rows)
  from img have mx: "max (length img) w = w" "w \<noteq> 0" "length img \<noteq> w" by simp_all
  from r have s: "\<not> scale \<le> 0" "\<not> r \<le> 0" by simp_all
  from r have ir: "int (nat r) = r" by simp
  from r have "0 \<le> scale - r" by simp
  from pad_split(1,2) [OF this]
  have nn: "\<not> (scale - r) div 2 < 0" "\<not> - ((- (scale - r)) div 2) < 0" by simp_all
  show ?thesis
    unfolding resize_img_def Let_def hw mx(1) r(1) np_pad_def cv2_resize_def
    using s nn mx(2,3) by (simp add: res ir)
qed

lemma resize_img_padded:
  assumes rz: "resizes inter_area"
    and img: "img \<noteq> []" "\<forall>row \<in> set img. length row = w" "0 < w"
    and r: "r = (if w \<le> length img then scaled_int scale (length img) w
                 else scaled_int scale w (length img))"
    and bounds: "0 < r" "r \<le> scale" "scale < 2 ^ 31"
  shows "\<exists>res out lead trail.
      inter_area img (if w \<le> length img then (nat r, nat scale) else (nat scale, nat r)) = Inr res
      \<and> resize_img inter_area img scale = Inr out
      \<and> length out = nat scale \<and> (\<forall>row \<in> set out. length row = nat scale)
      \<and> lead = (scale - r) div 2 \<and> lead + trail = scale - r \<and> lead \<le> trail \<and> trail \<le> lead + 1
      \<and> out = (if w \<le> length img
                then map (\<lambda>row. replicate (nat lead) 0 @ row @ replicate (nat trail) 0) res
                else replicate (nat lead) (replicate (nat scale) 0) @ res
                       @ replicate (nat trail) (replicate (nat scale) 0))"
proof -
  define lead where "lead = (scale - r) div 2"
  define trail where "trail = - ((- (scale - r)) div 2)"
  from bounds have "0 \<le> scale - r" by simp
  from pad_split [OF this]
  have lt: "0 \<le> lead" "0 \<le> trail" "lead + trail = scale - r" "lead \<le> trail" "trail \<le> lead + 1"
    unfolding lead_def trail_def by simp_all
  from lt bounds have n: "nat lead + (nat r + nat trail) = nat scale"
    by linarith
  from bounds have p: "0 < nat r" "nat r < 2 ^ 31" "0 < nat scale" "nat scale < 2 ^ 31" by simp_all
  show ?thesis
  proof (cases "w \<le> length img")
    case True
    with r have rr: "scaled_int scale (length img) w = r" by simp
    from resized_shape [OF rz p, of img]
    obtain res where res: "inter_area img (nat r, nat scale) = Inr res"
      and sh: "width res = nat r" "length res = nat scale" "\<forall>row \<in> set res. length row = nat r"
      by metis
    let ?out = "map (\<lambda>row. replicate (nat lead) (0::nat) @ row @ replicate (nat trail) 0) res"
    from resize_img_tall [where inter_area = inter_area, OF img True rr bounds(1,2) res sh(1)]
    have e: "resize_img inter_area img scale = Inr ?out" by (simp add: lead_def trail_def)
    from sh(2) have l: "length ?out = nat scale" by simp
    from sh(3) have rows: "\<forall>row \<in> set ?out. length row = nat scale" using n by auto
    have "inter_area img (if w \<le> length img then (nat r, nat scale) else (nat scale, nat r)) = Inr res
      \<and> resize_img inter_area img scale = Inr ?out
      \<and> length ?out = nat scale \<and> (\<forall>row \<in> set ?out. length row = nat scale)
      \<and> lead = (scale - r) div 2 \<and> lead + trail = scale - r \<and> lead \<le> trail \<and> trail \<le> lead + 1
      \<and> ?out = (if w \<le> length img
                then map (\<lambda>row. replicate (nat lead) 0 @ row @ replicate (nat trail) 0) res
                else replicate (nat lead) (replicate (nat scale) 0) @ res
                       @ replicate (nat trail) (replicate (nat scale) 0))"
      using res e l rows lt(3,4,5) True lead_def by (intro conjI) simp_all
    then show ?thesis by blast
  next
    case False
    with r have rr: "scaled_int scale w (length img) = r" by simp
    from resized_shape [OF rz p(3,4,1,2), of img]
    obtain res where res: "inter_area img (nat scale, nat r) = Inr res"
      and sh: "height res = nat r" "width res = nat scale" "length res = nat r"
        "\<forall>row \<in> set res. length row = nat scale"
      by metis
    let ?out = "replicate (nat lead) (replicate (nat scale) (0::nat)) @ res
                  @ replicate (nat trail) (replicate (nat scale) 0)"
    from resize_img_wide [where inter_area = inter_area, OF img False rr bounds(1,2) res sh(1,2)]
    have e: "resize_img inter_area img scale = Inr ?out" by (simp add: lead_def trail_def)
    from sh(3) have l: "length ?out = nat scale" using n by simp
    from sh(4) have rows: "\<forall>row \<in> set ?out. length row = nat scale" by auto
    have "inter_area img (if w \<le> length img then (nat r, nat scale) else (nat scale, nat r)) = Inr res
      \<and> resize_img inter_area img scale = Inr ?out
      \<and> length ?out = nat scale \<and> (\<forall>row \<in> set ?out. length row = nat scale)
      \<and> lead = (scale - r) div 2 \<and> lead + trail = scale - r \<and> lead \<le> trail \<and> trail \<le> lead + 1
      \<and> ?out = (if w \<le> length img
                then map (\<lambda>row. replicate (nat lead) 0 @ row @ replicate (nat trail) 0) res
                else replicate (nat lead) (replicate (nat scale) 0) @ res
                       @ replicate (nat trail) (replicate (nat scale) 0))"
      using res e l rows lt(3,4,5) False lead_def by (intro conjI) simp_all
    then show ?thesis by blast
  qed
qed

lemma resize_img_refused:
  assumes img: "img \<noteq> []" "\<forall>row \<in> set img. length row = w" "0 < w"
    and r: "r = (if w \<le> length img then scaled_int scale (length img) w
                 else scaled_int scale w (length img))"
    and "r \<le> 0"
  shows "resize_img inter_area img scale = Inl Cv2Error"
proof -
  from img have hw: "height img = length img" "width img = w"
    by (simp_all add: height_def width_rows)
  from img have n: "length img \<noteq> 0" "w \<noteq> 0" by simp_all
  show ?thesis
  proof (cases "w \<le> length img")
    case True
    with r assms(5) have "scaled_int scale (length img) w \<le> 0" by simp
    moreover from True have "max (length img) w = length img" by simp
    ultimately show ?thesis
      unfolding resize_img_def Let_def hw cv2_resize_def using n by simp
  next
    case False
    with r assms(5) have "scaled_int scale w (length img) \<le> 0" by simp
    moreover from False have "max (length img) w = w" "length img \<noteq> w" by simp_all
    ultimately show ?thesis
      unfolding resize_img_def Let_def hw cv2_resize_def using n by simp
  qed
qed

text \<open>
  C5, amended.  Let the image have at least one row and one column, let its sides and the
  target size be below \<open>2 ^ 31\<close> (what an \<open>int\<close> of the library holds), and let \<open>r\<close> be
  the size computed for the shorter side, \<open>int(float(shorter) * (scale / float(longer)))\<close>
  in double precision; the height counts as the longer side when both are equal.  When
  \<open>r\<close> is 0 or less, \<open>cv2.resize\<close> raises.  When \<open>r\<close> is at least 1, it is at most the
  target size, the image is resized to the target size along the longer side and to \<open>r\<close>
  along the shorter side, and the result has the target size in both directions: the
  shorter side gets \<open>scale - r\<close> zeros, \<open>floor(pad / 2)\<close> before and \<open>ceil(pad / 2)\<close>
  behind the image, so that the zeros before are at most those behind and at most one
  less, and the longer side gets none.  \<open>r\<close> is not always the floor of the exact
  product: an image of 55 rows and 55 columns is resized to 223 columns for the target
  size 224 (\<open>scaled_below_floor\<close>).  Of the interpolation only \<open>resizes\<close> is used: it
  returns an image of the size it is asked for; \<open>res\<close> is that image.
\<close>

theorem resize_img_square:
  assumes rz: "resizes inter_area"
    and img: "img \<noteq> []" "\<forall>row \<in> set img. length row = w" "0 < w"
    and sizes: "length img < 2 ^ 31" "w < 2 ^ 31" "scale < 2 ^ 31"
    and r: "r = (if w \<le> length img then scaled_int scale (length img) w
                 else scaled_int scale w (length img))"
  shows "(r \<le> 0 \<longrightarrow> resize_img inter_area img scale = Inl Cv2Error)
    \<and> (0 < r \<longrightarrow> r \<le> scale \<and>
         (\<exists>res out lead trail.
            inter_area img (if w \<le> length img then (nat r, nat scale) else (nat scale, nat r)) = Inr res
            \<and> resize_img inter_area img scale = Inr out
            \<and> length out = nat scale \<and> (\<forall>row \<in> set out. length row = nat scale)
            \<and> lead = (scale - r) div 2 \<and> lead + trail = scale - r \<and> lead \<le> trail \<and> trail \<le> lead + 1
            \<and> out = (if w \<le> length img
                      then map (\<lambda>row. replicate (nat lead) 0 @ row @ replicate (nat trail) 0) res
                      else replicate (nat lead) (replicate (nat scale) 0) @ res
                             @ replicate (nat trail) (replicate (nat scale) 0))))"
proof (intro conjI impI)
  assume "r \<le> 0"
  with img r show "resize_img inter_area img scale = Inl Cv2Error" by (rule resize_img_refused)
next
  assume p: "0 < r"
  show le: "r \<le> scale"
  proof (cases "w \<le> length img")
    case True
    from img(1) sizes(1) have "0 < length img" "length img < 2 ^ 53" by simp_all
    from scaled_int_le [OF this(1) True this(2) sizes(3)] p r True show ?thesis by simp
  next
    case False
    then have "length img \<le> w" by simp
    moreover from sizes(2) have "w < 2 ^ 53" by simp
    ultimately show ?thesis using scaled_int_le [OF img(3) _ _ sizes(3)] p r False by simp
  qed
  from rz img r p le sizes(3)
  show "\<exists>res out lead trail.
            inter_area img (if w \<le> length img then (nat r, nat scale) else (nat scale, nat r)) = Inr res
            \<and> resize_img inter_area img scale = Inr out
            \<and> length out = nat scale \<and> (\<forall>row \<in> set out. length row = nat scale)
            \<and> lead = (scale - r) div 2 \<and> lead + trail = scale - r \<and> lead \<le> trail \<and> trail \<le> lead + 1
            \<and> out = (if w \<le> length img
                      then map (\<lambda>row. replicate (nat lead) 0 @ row @ replicate (nat trail) 0) res
                      else replicate (nat lead) (replicate (nat scale) 0) @ res
                             @ replicate (nat trail) (replicate (nat scale) 0))"
    by (rule resize_img_padded)
qed

theorem resize_img_square_witness:
  "resizes nearest
   \<and> scaled_int 224 200 100 = 112
   \<and> (\<exists>res. nearest (replicate 100 (replicate 200 0)) (224, 112) = Inr res
         \<and> resize_img nearest (replicate 100 (replicate 200 0)) 224
             = Inr (replicate 56 (replicate 224 0) @ res @ replicate 56 (replicate 224 0)))"
proof -
  let ?img = "replicate 100 (replicate 200 (0::nat))"
  have i: "?img \<noteq> []" "\<forall>row \<in> set ?img. length row = 200" "0 < (200::nat)" by simp_all
  have s: "length ?img < 2 ^ 31" "(200::nat) < 2 ^ 31" "(224::int) < 2 ^ 31" by simp_all
  have r: "(112::int) = (if 200 \<le> length ?img then scaled_int 224 (length ?img) 200
                 else scaled_int 224 200 (length ?img))"
    by (simp add: scaled_224_200_100)
  from resize_img_square [OF nearest_resizes i s r]
  obtain res out lead trail where
    "nearest ?img (if 200 \<le> length ?img then (nat 112, nat 224) else (nat 224, nat 112)) = Inr res"
    and "resize_img nearest ?img 224 = Inr out"
    and "lead = (224 - 112) div 2" and "lead + trail = 224 - 112"
    and "out = (if 200 \<le> length ?img
                then map (\<lambda>row. replicate (nat lead) 0 @ row @ replicate (nat trail) 0) res
                else replicate (nat lead) (replicate (nat 224) 0) @ res
                       @ replicate (nat trail) (replicate (nat 224) 0))"
    by auto
  then have "nearest ?img (224, 112) = Inr res
         \<and> resize_img nearest ?img 224
             = Inr (replicate 56 (replicate 224 0) @ res @ replicate 56 (replicate 224 0))"
    by simp
  with nearest_resizes scaled_224_200_100 show ?thesis by blast
qed

end
